theory Spec2Isabelle
  imports Main "HOL-Library.Monad_Syntax"
begin

section \<open>Data model (js/game.js)\<close>

text \<open>
  The source uses the numbers \<open>BLACK = 1\<close>, \<open>WHITE = 2\<close> and \<open>EMPTY = 0\<close> both for the two
  players and for the content of a board cell. A player is one of the two colours; a cell is
  empty or holds a disc of a colour.
\<close>

datatype player = BLACK | WHITE

datatype cell = EMPTY | Disc player

text \<open>The board is an array of rows, each an array of cells; a move is \<open>{row, col}\<close>.\<close>

type_synonym board = "cell list list"

type_synonym move = "int \<times> int"

text \<open>One entry of \<open>moveHistory\<close>: \<open>{row, col, player, flipped}\<close>.\<close>

type_synonym history_entry = "int \<times> int \<times> player \<times> move list"

record game =
  board :: board
  currentPlayer :: player
  gameOver :: bool
  winner :: "player option"
  lastMove :: "move option"
  flippedDiscs :: "move list"
  validMoves :: "move list"
  moveHistory :: "history_entry list"

text \<open>
  Every function that touches the board returns an \<open>option\<close>. \<open>None\<close> means that the call
  does not return a value: an access \<open>board[r][c]\<close> fell outside the arrays (JavaScript then
  raises a TypeError when the row is missing, and reads \<open>undefined\<close> when only the column
  is), or a loop does not end. \<open>cellAt\<close> is the read \<open>this.board[r][c]\<close>, checked against the
  real lengths of the arrays.
\<close>

definition cellAt :: "board \<Rightarrow> int \<Rightarrow> int \<Rightarrow> cell option" where
  "cellAt b r c =
     (if 0 \<le> r \<and> r < int (length b) then
        (if 0 \<le> c \<and> c < int (length (b ! nat r)) then Some (b ! nat r ! nat c) else None)
      else None)"

text \<open>The write \<open>this.board[r][c] = v\<close>.\<close>

definition setCell :: "board \<Rightarrow> int \<Rightarrow> int \<Rightarrow> cell \<Rightarrow> board option" where
  "setCell b r c v =
     (if 0 \<le> r \<and> r < int (length b) \<and> 0 \<le> c \<and> c < int (length (b ! nat r))
      then Some (b[nat r := (b ! nat r)[nat c := v]])
      else None)"

text \<open>\<open>player === BLACK ? WHITE : BLACK\<close>\<close>

definition opponentOf :: "player \<Rightarrow> player" where
  "opponentOf p = (if p = BLACK then WHITE else BLACK)"

definition directions :: "(int \<times> int) list" where
  "directions = [(-1, -1), (-1, 0), (-1, 1), (0, -1), (0, 1), (1, -1), (1, 0), (1, 1)]"

text \<open>The values of a loop \<open>for (let i = 0; i < 8; i++)\<close>, and the cells in the order in
  which the nested loops over \<open>row\<close> and \<open>col\<close> visit them.\<close>

definition idx8 :: "int list" where
  "idx8 = [0, 1, 2, 3, 4, 5, 6, 7]"

definition allCells :: "move list" where
  "allCells = concat (map (\<lambda>r. map (\<lambda>c. (r, c)) idx8) idx8)"

text \<open>A board as \<open>init\<close> and \<open>clone\<close> build it: eight rows of eight cells.\<close>

definition wf_board :: "board \<Rightarrow> bool" where
  "wf_board b = (length b = 8 \<and> list_all (\<lambda>row. length row = 8) b)"

section \<open>Legality and flips (js/game.js)\<close>

text \<open>
  The \<open>while\<close> loop of \<open>isValidMove\<close> for one direction, started at \<open>(row + dr, col + dc)\<close> with
  \<open>foundOpponent = false\<close>; it returns the final \<open>r\<close>, \<open>c\<close> and \<open>foundOpponent\<close>. With the
  direction \<open>(0, 0)\<close>, which is not in the table, the loop would not end on an opponent's cell.
\<close>

function walkValid :: "board \<Rightarrow> player \<Rightarrow> int \<Rightarrow> int \<Rightarrow> int \<Rightarrow> int \<Rightarrow> bool \<Rightarrow> (int \<times> int \<times> bool) option" where
  "walkValid b opponent dr dc r c foundOpponent =
     (if r \<ge> 0 \<and> r < 8 \<and> c \<ge> 0 \<and> c < 8 then
        (case cellAt b r c of
           None \<Rightarrow> None
         | Some x \<Rightarrow>
             if x = Disc opponent then
               (if dr = 0 \<and> dc = 0 then None
                else walkValid b opponent dr dc (r + dr) (c + dc) True)
             else Some (r, c, foundOpponent))
      else Some (r, c, foundOpponent))"
  by pat_completeness auto
termination
  by (relation "measure (\<lambda>(b, opponent, dr, dc, r, c, f).
        if dr > 0 then nat (8 - r) else if dr < 0 then nat (r + 1)
        else if dc > 0 then nat (8 - c) else nat (c + 1))") auto

text \<open>The loop \<open>for (const [dr, dc] of directions)\<close> of \<open>isValidMove\<close>, with its early
  \<open>return true\<close> and the final \<open>return false\<close>.\<close>

fun dirsValid :: "board \<Rightarrow> player \<Rightarrow> int \<Rightarrow> int \<Rightarrow> (int \<times> int) list \<Rightarrow> bool option" where
  "dirsValid b player row col [] = Some False"
| "dirsValid b player row col ((dr, dc) # ds) =
     (case walkValid b (opponentOf player) dr dc (row + dr) (col + dc) False of
        None \<Rightarrow> None
      | Some (r, c, foundOpponent) \<Rightarrow>
          if foundOpponent \<and> r \<ge> 0 \<and> r < 8 \<and> c \<ge> 0 \<and> c < 8 then
            (case cellAt b r c of
               None \<Rightarrow> None
             | Some x \<Rightarrow> if x = Disc player then Some True else dirsValid b player row col ds)
          else dirsValid b player row col ds)"

definition isValidMove :: "board \<Rightarrow> int \<Rightarrow> int \<Rightarrow> player \<Rightarrow> bool option" where
  "isValidMove b row col player =
     (case cellAt b row col of
        None \<Rightarrow> None
      | Some x \<Rightarrow> if x \<noteq> EMPTY then Some False else dirsValid b player row col directions)"

text \<open>The \<open>while\<close> loop of \<open>getFlippedDiscs\<close> for one direction; it returns the final \<open>r\<close>,
  \<open>c\<close> and \<open>line\<close>.\<close>

function walkFlip :: "board \<Rightarrow> player \<Rightarrow> int \<Rightarrow> int \<Rightarrow> int \<Rightarrow> int \<Rightarrow> move list \<Rightarrow> (int \<times> int \<times> move list) option" where
  "walkFlip b opponent dr dc r c line =
     (if r \<ge> 0 \<and> r < 8 \<and> c \<ge> 0 \<and> c < 8 then
        (case cellAt b r c of
           None \<Rightarrow> None
         | Some x \<Rightarrow>
             if x = Disc opponent then
               (if dr = 0 \<and> dc = 0 then None
                else walkFlip b opponent dr dc (r + dr) (c + dc) (line @ [(r, c)]))
             else Some (r, c, line))
      else Some (r, c, line))"
  by pat_completeness auto
termination
  by (relation "measure (\<lambda>(b, opponent, dr, dc, r, c, l).
        if dr > 0 then nat (8 - r) else if dr < 0 then nat (r + 1)
        else if dc > 0 then nat (8 - c) else nat (c + 1))") auto

text \<open>The loop over \<open>directions\<close> of \<open>getFlippedDiscs\<close>; \<open>flipped\<close> is the list built so far.\<close>

fun dirsFlip :: "board \<Rightarrow> player \<Rightarrow> int \<Rightarrow> int \<Rightarrow> (int \<times> int) list \<Rightarrow> move list \<Rightarrow> move list option" where
  "dirsFlip b player row col [] flipped = Some flipped"
| "dirsFlip b player row col ((dr, dc) # ds) flipped =
     (case walkFlip b (opponentOf player) dr dc (row + dr) (col + dc) [] of
        None \<Rightarrow> None
      | Some (r, c, line) \<Rightarrow>
          if length line > 0 \<and> r \<ge> 0 \<and> r < 8 \<and> c \<ge> 0 \<and> c < 8 then
            (case cellAt b r c of
               None \<Rightarrow> None
             | Some x \<Rightarrow>
                 if x = Disc player then dirsFlip b player row col ds (flipped @ line)
                 else dirsFlip b player row col ds flipped)
          else dirsFlip b player row col ds flipped)"

definition getFlippedDiscs :: "board \<Rightarrow> int \<Rightarrow> int \<Rightarrow> player \<Rightarrow> move list option" where
  "getFlippedDiscs b row col player = dirsFlip b player row col directions []"

text \<open>\<open>findValidMoves\<close>: the nested loops over \<open>row\<close> and \<open>col\<close>, on the cells still to
  visit.\<close>

fun findLoop :: "board \<Rightarrow> player \<Rightarrow> move list \<Rightarrow> move list option" where
  "findLoop b player [] = Some []"
| "findLoop b player ((row, col) # cs) =
     (case isValidMove b row col player of
        None \<Rightarrow> None
      | Some v \<Rightarrow>
          (case findLoop b player cs of
             None \<Rightarrow> None
           | Some moves \<Rightarrow> Some (if v then (row, col) # moves else moves)))"

definition findValidMoves :: "board \<Rightarrow> player \<Rightarrow> move list option" where
  "findValidMoves b player = findLoop b player allCells"

text \<open>\<open>getScore\<close>: the two counters over the cells still to visit; the result is
  \<open>{black, white}\<close>.\<close>

fun scoreLoop :: "board \<Rightarrow> move list \<Rightarrow> int \<Rightarrow> int \<Rightarrow> (int \<times> int) option" where
  "scoreLoop b [] black white = Some (black, white)"
| "scoreLoop b ((row, col) # cs) black white =
     (case cellAt b row col of
        None \<Rightarrow> None
      | Some x \<Rightarrow>
          if x = Disc BLACK then scoreLoop b cs (black + 1) white
          else if x = Disc WHITE then scoreLoop b cs black (white + 1)
          else scoreLoop b cs black white)"

definition getScore :: "board \<Rightarrow> (int \<times> int) option" where
  "getScore b = scoreLoop b allCells 0 0"

section \<open>The engine (js/game.js)\<close>

definition updateValidMoves :: "game \<Rightarrow> game option" where
  "updateValidMoves g =
     (case findValidMoves (board g) (currentPlayer g) of
        None \<Rightarrow> None
      | Some moves \<Rightarrow> Some (g\<lparr>validMoves := moves\<rparr>))"

text \<open>\<open>init\<close>, as the constructor runs it: the empty board, the four starting discs, the
  scalar fields, then \<open>updateValidMoves\<close>.\<close>

definition init :: "game option" where
  "init = do {
     let b0 = replicate 8 (replicate 8 EMPTY);
     b1 \<leftarrow> setCell b0 3 3 (Disc WHITE);
     b2 \<leftarrow> setCell b1 3 4 (Disc BLACK);
     b3 \<leftarrow> setCell b2 4 3 (Disc BLACK);
     b4 \<leftarrow> setCell b3 4 4 (Disc WHITE);
     updateValidMoves
       \<lparr>board = b4, currentPlayer = BLACK, gameOver = False, winner = None, lastMove = None,
        flippedDiscs = [], validMoves = [], moveHistory = []\<rparr>
   }"

definition determineWinner :: "game \<Rightarrow> game option" where
  "determineWinner g =
     (case getScore (board g) of
        None \<Rightarrow> None
      | Some (black, white) \<Rightarrow>
          if black > white then Some (g\<lparr>winner := Some BLACK\<rparr>)
          else if white > black then Some (g\<lparr>winner := Some WHITE\<rparr>)
          else Some (g\<lparr>winner := None\<rparr>))"

text \<open>The loop \<open>for (const disc of flipped)\<close> of \<open>makeMove\<close>.\<close>

fun flipLoop :: "board \<Rightarrow> player \<Rightarrow> move list \<Rightarrow> board option" where
  "flipLoop b player [] = Some b"
| "flipLoop b player ((r, c) # ds) =
     (case setCell b r c (Disc player) of
        None \<Rightarrow> None
      | Some b' \<Rightarrow> flipLoop b' player ds)"

text \<open>\<open>makeMove\<close> returns its boolean together with the state it leaves behind.\<close>

definition makeMove :: "game \<Rightarrow> int \<Rightarrow> int \<Rightarrow> (bool \<times> game) option" where
  "makeMove g row col =
     (if gameOver g then Some (False, g)
      else do {
        valid \<leftarrow> isValidMove (board g) row col (currentPlayer g);
        if \<not> valid then Some (False, g)
        else do {
          flipped \<leftarrow> getFlippedDiscs (board g) row col (currentPlayer g);
          b1 \<leftarrow> setCell (board g) row col (Disc (currentPlayer g));
          b2 \<leftarrow> flipLoop b1 (currentPlayer g) flipped;
          let g1 = g\<lparr>board := b2, lastMove := Some (row, col), flippedDiscs := flipped,
                     moveHistory := moveHistory g @ [(row, col, currentPlayer g, flipped)]\<rparr>;
          let opponent = opponentOf (currentPlayer g1);
          opponentMoves \<leftarrow> findValidMoves (board g1) opponent;
          if length opponentMoves > 0 then
            Some (True, g1\<lparr>currentPlayer := opponent, validMoves := opponentMoves\<rparr>)
          else do {
            currentMoves \<leftarrow> findValidMoves (board g1) (currentPlayer g1);
            if length currentMoves > 0 then Some (True, g1\<lparr>validMoves := currentMoves\<rparr>)
            else do {
              g2 \<leftarrow> determineWinner (g1\<lparr>gameOver := True\<rparr>);
              Some (True, g2)
            }
          }
        }
      })"

text \<open>
  \<open>clone\<close>: a new game from the constructor, whose board, \<open>currentPlayer\<close>, \<open>gameOver\<close>,
  \<open>winner\<close> and \<open>validMoves\<close> are then overwritten with copies; \<open>lastMove\<close>, \<open>flippedDiscs\<close>
  and \<open>moveHistory\<close> keep the values the constructor gave them.
\<close>

definition clone :: "game \<Rightarrow> game" where
  "clone g =
     \<lparr>board = map (\<lambda>row. row) (board g), currentPlayer = currentPlayer g,
      gameOver = gameOver g, winner = winner g, lastMove = None, flippedDiscs = [],
      validMoves = validMoves g, moveHistory = []\<rparr>"

section \<open>The evaluator and the search (js/ai.js)\<close>

text \<open>A JavaScript number as the search uses it: an integer score, or one of the two
  infinities that start \<open>alpha\<close>, \<open>beta\<close>, \<open>maxScore\<close>, \<open>minScore\<close> and \<open>bestScore\<close>.\<close>

datatype number = NegInf | Fin int | PosInf

instantiation number :: linorder
begin

fun less_eq_number :: "number \<Rightarrow> number \<Rightarrow> bool" where
  "less_eq_number NegInf y = True"
| "less_eq_number (Fin a) NegInf = False"
| "less_eq_number (Fin a) (Fin b) = (a \<le> b)"
| "less_eq_number (Fin a) PosInf = True"
| "less_eq_number PosInf NegInf = False"
| "less_eq_number PosInf (Fin b) = False"
| "less_eq_number PosInf PosInf = True"

definition less_number :: "number \<Rightarrow> number \<Rightarrow> bool" where
  "less_number x y = (x \<le> y \<and> \<not> y \<le> (x::number))"

instance
proof
  fix x y z :: number
  show "(x < y) = (x \<le> y \<and> \<not> y \<le> x)" by (simp add: less_number_def)
  show "x \<le> x" by (cases x) simp_all
  show "x \<le> y \<Longrightarrow> y \<le> z \<Longrightarrow> x \<le> z" by (cases x; cases y; cases z) simp_all
  show "x \<le> y \<Longrightarrow> y \<le> x \<Longrightarrow> x = y" by (cases x; cases y) simp_all
  show "x \<le> y \<or> y \<le> x" by (cases x; cases y) auto
qed

end

definition positionWeights :: "int list list" where
  "positionWeights =
     [[100, -20, 10,  5,  5, 10, -20, 100],
      [-20, -50, -2, -2, -2, -2, -50, -20],
      [ 10,  -2,  1,  1,  1,  1,  -2,  10],
      [  5,  -2,  1,  0,  0,  1,  -2,   5],
      [  5,  -2,  1,  0,  0,  1,  -2,   5],
      [ 10,  -2,  1,  1,  1,  1,  -2,  10],
      [-20, -50, -2, -2, -2, -2, -50, -20],
      [100, -20, 10,  5,  5, 10, -20, 100]]"

text \<open>The read \<open>this.positionWeights[row][col]\<close>.\<close>

definition weightAt :: "int \<Rightarrow> int \<Rightarrow> int option" where
  "weightAt r c =
     (if 0 \<le> r \<and> r < int (length positionWeights) \<and>
         0 \<le> c \<and> c < int (length (positionWeights ! nat r))
      then Some (positionWeights ! nat r ! nat c) else None)"

text \<open>Term 2 of \<open>evaluate\<close>: the loops over \<open>row\<close> and \<open>col\<close>, with the running
  \<open>evaluation\<close>.\<close>

fun positionLoop :: "board \<Rightarrow> player \<Rightarrow> player \<Rightarrow> move list \<Rightarrow> int \<Rightarrow> int option" where
  "positionLoop b aiPlayer humanPlayer [] evaluation = Some evaluation"
| "positionLoop b aiPlayer humanPlayer ((row, col) # cs) evaluation =
     (case cellAt b row col of
        None \<Rightarrow> None
      | Some x \<Rightarrow>
          if x = Disc aiPlayer then
            (case weightAt row col of
               None \<Rightarrow> None
             | Some w \<Rightarrow> positionLoop b aiPlayer humanPlayer cs (evaluation + w))
          else if x = Disc humanPlayer then
            (case weightAt row col of
               None \<Rightarrow> None
             | Some w \<Rightarrow> positionLoop b aiPlayer humanPlayer cs (evaluation - w))
          else positionLoop b aiPlayer humanPlayer cs evaluation)"

text \<open>The loops of term 4 of \<open>evaluate\<close> (\<open>k = 50\<close>, over \<open>corners\<close>) and of \<open>evaluateEdges\<close>
  (\<open>k = 2\<close>, over the cells of the four edges in turn): add \<open>k\<close> for a disc of \<open>aiPlayer\<close>,
  subtract it for a disc of \<open>humanPlayer\<close>.\<close>

fun bonusLoop :: "board \<Rightarrow> player \<Rightarrow> player \<Rightarrow> int \<Rightarrow> move list \<Rightarrow> int \<Rightarrow> int option" where
  "bonusLoop b aiPlayer humanPlayer k [] score = Some score"
| "bonusLoop b aiPlayer humanPlayer k ((row, col) # cs) score =
     (case cellAt b row col of
        None \<Rightarrow> None
      | Some x \<Rightarrow>
          if x = Disc aiPlayer then bonusLoop b aiPlayer humanPlayer k cs (score + k)
          else if x = Disc humanPlayer then bonusLoop b aiPlayer humanPlayer k cs (score - k)
          else bonusLoop b aiPlayer humanPlayer k cs score)"

definition corners :: "move list" where
  "corners = [(0, 0), (0, 7), (7, 0), (7, 7)]"

definition edges :: "move list list" where
  "edges =
     [[(0, 0), (0, 1), (0, 2), (0, 3), (0, 4), (0, 5), (0, 6), (0, 7)],
      [(7, 0), (7, 1), (7, 2), (7, 3), (7, 4), (7, 5), (7, 6), (7, 7)],
      [(0, 0), (1, 0), (2, 0), (3, 0), (4, 0), (5, 0), (6, 0), (7, 0)],
      [(0, 7), (1, 7), (2, 7), (3, 7), (4, 7), (5, 7), (6, 7), (7, 7)]]"

definition evaluateEdges :: "board \<Rightarrow> player \<Rightarrow> player \<Rightarrow> int option" where
  "evaluateEdges b aiPlayer humanPlayer = bonusLoop b aiPlayer humanPlayer 2 (concat edges) 0"

definition evaluate :: "game \<Rightarrow> player \<Rightarrow> int option" where
  "evaluate g aiPlayer = do {
     let humanPlayer = (if aiPlayer = WHITE then BLACK else WHITE);
     (black, white) \<leftarrow> getScore (board g);
     if gameOver g then
       (if winner g = Some aiPlayer then Some 10000
        else if winner g = Some humanPlayer then Some (- 10000)
        else Some 0)
     else do {
       let totalDiscs = black + white;
       let discWeight = (if totalDiscs > 50 then 10 else 1);
       let aiDiscs = (if aiPlayer = WHITE then white else black);
       let humanDiscs = (if aiPlayer = WHITE then black else white);
       let e1 = 0 + (aiDiscs - humanDiscs) * discWeight;
       e2 \<leftarrow> positionLoop (board g) aiPlayer humanPlayer allCells e1;
       aiMoves \<leftarrow> findValidMoves (board g) aiPlayer;
       humanMoves \<leftarrow> findValidMoves (board g) humanPlayer;
       let e3 = e2 + (int (length aiMoves) - int (length humanMoves)) * 5;
       e4 \<leftarrow> bonusLoop (board g) aiPlayer humanPlayer 50 corners e3;
       e5 \<leftarrow> evaluateEdges (board g) aiPlayer humanPlayer;
       Some (e4 + e5)
     }
   }"

text \<open>
  \<open>minimax\<close> with its two \<open>for\<close> loops. \<open>depth\<close> is a number of plies, a natural number; the
  loops receive the depth \<open>depth - 1\<close> of the children, the moves still to try, and the running
  \<open>maxScore\<close> (\<open>minScore\<close>), \<open>alpha\<close> and \<open>beta\<close>. The counter \<open>nodesEvaluated\<close> is only ever
  written and is left out.
\<close>

function minimax :: "game \<Rightarrow> nat \<Rightarrow> number \<Rightarrow> number \<Rightarrow> bool \<Rightarrow> player \<Rightarrow> number option"
  and maxLoop :: "game \<Rightarrow> nat \<Rightarrow> player \<Rightarrow> move list \<Rightarrow> number \<Rightarrow> number \<Rightarrow> number \<Rightarrow> number option"
  and minLoop :: "game \<Rightarrow> nat \<Rightarrow> player \<Rightarrow> move list \<Rightarrow> number \<Rightarrow> number \<Rightarrow> number \<Rightarrow> number option"
where
  "minimax g depth alpha beta isMaximizing aiPlayer =
     (if depth = 0 \<or> gameOver g then map_option Fin (evaluate g aiPlayer)
      else if length (validMoves g) = 0 then map_option Fin (evaluate g aiPlayer)
      else if isMaximizing then maxLoop g (depth - 1) aiPlayer (validMoves g) NegInf alpha beta
      else minLoop g (depth - 1) aiPlayer (validMoves g) PosInf alpha beta)"
| "maxLoop g d aiPlayer [] maxScore alpha beta = Some maxScore"
| "maxLoop g d aiPlayer (m # ms) maxScore alpha beta =
     (case makeMove (clone g) (fst m) (snd m) of
        None \<Rightarrow> None
      | Some (ok, gameCopy) \<Rightarrow>
          (case minimax gameCopy d alpha beta False aiPlayer of
             None \<Rightarrow> None
           | Some score \<Rightarrow>
               if beta \<le> max alpha score then Some (max maxScore score)
               else maxLoop g d aiPlayer ms (max maxScore score) (max alpha score) beta))"
| "minLoop g d aiPlayer [] minScore alpha beta = Some minScore"
| "minLoop g d aiPlayer (m # ms) minScore alpha beta =
     (case makeMove (clone g) (fst m) (snd m) of
        None \<Rightarrow> None
      | Some (ok, gameCopy) \<Rightarrow>
          (case minimax gameCopy d alpha beta True aiPlayer of
             None \<Rightarrow> None
           | Some score \<Rightarrow>
               if min beta score \<le> alpha then Some (min minScore score)
               else minLoop g d aiPlayer ms (min minScore score) alpha (min beta score)))"
  by pat_completeness auto
termination
  by (relation "measures
        [\<lambda>x. case x of Inl (g, depth, _) \<Rightarrow> 2 * depth
              | Inr (Inl (g, d, _)) \<Rightarrow> 2 * d + 1
              | Inr (Inr (g, d, _)) \<Rightarrow> 2 * d + 1,
         \<lambda>x. case x of Inl _ \<Rightarrow> 0
              | Inr (Inl (g, d, ai, ms, _)) \<Rightarrow> length ms
              | Inr (Inr (g, d, ai, ms, _)) \<Rightarrow> length ms]") auto

text \<open>
  \<open>getMove\<close>. \<open>depth\<close> is the field \<open>this.depth\<close>, a number of plies that is at least 1 (the
  application builds the search with 4). The delay before the search only paces the display
  and is left out. \<open>rootLoop\<close> is the loop over the candidates, with the running \<open>bestMove\<close>
  and \<open>bestScore\<close>; \<open>getMove\<close> returns \<open>None\<close> inside \<open>Some\<close> for \<open>null\<close>.
\<close>

fun rootLoop :: "nat \<Rightarrow> game \<Rightarrow> move list \<Rightarrow> move \<Rightarrow> number \<Rightarrow> (move \<times> number) option" where
  "rootLoop depth g [] bestMove bestScore = Some (bestMove, bestScore)"
| "rootLoop depth g (m # ms) bestMove bestScore =
     (case makeMove (clone g) (fst m) (snd m) of
        None \<Rightarrow> None
      | Some (ok, gameCopy) \<Rightarrow>
          (case minimax gameCopy (depth - 1) NegInf PosInf False WHITE of
             None \<Rightarrow> None
           | Some score \<Rightarrow>
               if score > bestScore then rootLoop depth g ms m score
               else rootLoop depth g ms bestMove bestScore))"

definition getMove :: "nat \<Rightarrow> game \<Rightarrow> move option option" where
  "getMove depth g =
     (if length (validMoves g) = 0 then Some None
      else if length (validMoves g) = 1 then Some (Some (validMoves g ! 0))
      else map_option (\<lambda>(bestMove, bestScore). Some bestMove)
             (rootLoop depth g (validMoves g) (validMoves g ! 0) NegInf))"

section \<open>States of the engine\<close>

text \<open>The state the constructor leaves behind (lemma \<open>init_startGame\<close>).\<close>

definition startBoard :: board where
  "startBoard =
     [[EMPTY, EMPTY, EMPTY, EMPTY, EMPTY, EMPTY, EMPTY, EMPTY],
      [EMPTY, EMPTY, EMPTY, EMPTY, EMPTY, EMPTY, EMPTY, EMPTY],
      [EMPTY, EMPTY, EMPTY, EMPTY, EMPTY, EMPTY, EMPTY, EMPTY],
      [EMPTY, EMPTY, EMPTY, Disc WHITE, Disc BLACK, EMPTY, EMPTY, EMPTY],
      [EMPTY, EMPTY, EMPTY, Disc BLACK, Disc WHITE, EMPTY, EMPTY, EMPTY],
      [EMPTY, EMPTY, EMPTY, EMPTY, EMPTY, EMPTY, EMPTY, EMPTY],
      [EMPTY, EMPTY, EMPTY, EMPTY, EMPTY, EMPTY, EMPTY, EMPTY],
      [EMPTY, EMPTY, EMPTY, EMPTY, EMPTY, EMPTY, EMPTY, EMPTY]]"

definition startGame :: game where
  "startGame =
     \<lparr>board = startBoard, currentPlayer = BLACK, gameOver = False, winner = None,
      lastMove = None, flippedDiscs = [], validMoves = [(2, 3), (3, 2), (4, 5), (5, 4)],
      moveHistory = []\<rparr>"

text \<open>The states the engine reaches from a new game through calls of \<open>makeMove\<close> that
  return \<open>true\<close>.\<close>

inductive reachable :: "game \<Rightarrow> bool" where
  start: "init = Some g \<Longrightarrow> reachable g"
| step: "reachable g \<Longrightarrow> makeMove g row col = Some (True, g') \<Longrightarrow> reachable g'"

text \<open>Playing a list of moves, each of which has to succeed.\<close>

fun playMoves :: "game \<Rightarrow> move list \<Rightarrow> game option" where
  "playMoves g [] = Some g"
| "playMoves g ((row, col) # ms) =
     (case makeMove g row col of
        None \<Rightarrow> None
      | Some (ok, g') \<Rightarrow> if ok then playMoves g' ms else None)"

text \<open>The number of cells of the 8 x 8 grid that hold \<open>v\<close>.\<close>

definition discCount :: "board \<Rightarrow> cell \<Rightarrow> nat" where
  "discCount b v = length (filter (\<lambda>(r, c). cellAt b r c = Some v) allCells)"

text \<open>The cells of the grid that hold \<open>v\<close>, as a set.\<close>

definition cellsWith :: "board \<Rightarrow> cell \<Rightarrow> move set" where
  "cellsWith b v = {m \<in> set allCells. cellAt b (fst m) (snd m) = Some v}"

text \<open>\<open>m\<close> lies on the ray that leaves \<open>(row, col)\<close> in the direction \<open>(dr, dc)\<close>.\<close>

definition onRay :: "int \<Rightarrow> int \<Rightarrow> int \<Rightarrow> int \<Rightarrow> move \<Rightarrow> bool" where
  "onRay row col dr dc m = (\<exists>k::int. k \<ge> 1 \<and> fst m = row + k * dr \<and> snd m = col + k * dc)"

text \<open>A game of nine moves after which neither player can move (Black has taken every
  disc).\<close>

definition shortGame :: "move list" where
  "shortGame = [(2, 3), (2, 2), (2, 1), (1, 3), (0, 4), (5, 3), (6, 3), (2, 4), (3, 5)]"

section \<open>The terms of the evaluation, as the specification words them\<close>

text \<open>\<open>+1\<close> for a cell that \<open>p\<close> holds, \<open>-1\<close> for a cell that \<open>q\<close> holds, \<open>0\<close> otherwise.\<close>

definition sideOf :: "board \<Rightarrow> player \<Rightarrow> player \<Rightarrow> move \<Rightarrow> int" where
  "sideOf b p q m =
     (if cellAt b (fst m) (snd m) = Some (Disc p) then 1
      else if cellAt b (fst m) (snd m) = Some (Disc q) then - 1 else 0)"

text \<open>
  The table of weights as the specification prints it (section 4.2), written out here a
  second time and not taken from \<open>positionWeights\<close>: corners 100, the cells diagonally next
  to a corner -50, the border cells next to a corner -20, the other border cells 10 or 5,
  the inner cells -2, 1 or 0. \<open>weight\<close> is the entry of a cell in it.
\<close>

definition specWeights :: "int list list" where
  "specWeights =
     [[100, -20,  10,   5,   5,  10, -20, 100],
      [-20, -50,  -2,  -2,  -2,  -2, -50, -20],
      [ 10,  -2,   1,   1,   1,   1,  -2,  10],
      [  5,  -2,   1,   0,   0,   1,  -2,   5],
      [  5,  -2,   1,   0,   0,   1,  -2,   5],
      [ 10,  -2,   1,   1,   1,   1,  -2,  10],
      [-20, -50,  -2,  -2,  -2,  -2, -50, -20],
      [100, -20,  10,   5,   5,  10, -20, 100]]"

definition weight :: "move \<Rightarrow> int" where
  "weight m = specWeights ! nat (fst m) ! nat (snd m)"

text \<open>The cells on the four border lines, each once; the four corner cells, as the cells
  that lie on two border lines; the legal moves of a player, by a scan of the whole grid.\<close>

definition borderCells :: "move list" where
  "borderCells = filter (\<lambda>(r, c). r = 0 \<or> r = 7 \<or> c = 0 \<or> c = 7) allCells"

definition cornerCells :: "move list" where
  "cornerCells = filter (\<lambda>(r, c). (r = 0 \<or> r = 7) \<and> (c = 0 \<or> c = 7)) allCells"

definition legalMoves :: "board \<Rightarrow> player \<Rightarrow> move list" where
  "legalMoves b p = filter (\<lambda>(r, c). isValidMove b r c p = Some True) allCells"

section \<open>The search without pruning, as the specification words it\<close>

text \<open>
  The full-width traversal of the same tree: \<open>minimax\<close>, its loops and \<open>getMove\<close> with
  \<open>alpha\<close>, \<open>beta\<close> and the cutoff taken out, the same order of the candidates and the same
  strict comparison at the root.
\<close>

function fullMinimax :: "game \<Rightarrow> nat \<Rightarrow> bool \<Rightarrow> player \<Rightarrow> number option"
  and fullMaxLoop :: "game \<Rightarrow> nat \<Rightarrow> player \<Rightarrow> move list \<Rightarrow> number \<Rightarrow> number option"
  and fullMinLoop :: "game \<Rightarrow> nat \<Rightarrow> player \<Rightarrow> move list \<Rightarrow> number \<Rightarrow> number option"
where
  "fullMinimax g depth isMaximizing aiPlayer =
     (if depth = 0 \<or> gameOver g then map_option Fin (evaluate g aiPlayer)
      else if length (validMoves g) = 0 then map_option Fin (evaluate g aiPlayer)
      else if isMaximizing then fullMaxLoop g (depth - 1) aiPlayer (validMoves g) NegInf
      else fullMinLoop g (depth - 1) aiPlayer (validMoves g) PosInf)"
| "fullMaxLoop g d aiPlayer [] maxScore = Some maxScore"
| "fullMaxLoop g d aiPlayer (m # ms) maxScore =
     (case makeMove (clone g) (fst m) (snd m) of
        None \<Rightarrow> None
      | Some (ok, gameCopy) \<Rightarrow>
          (case fullMinimax gameCopy d False aiPlayer of
             None \<Rightarrow> None
           | Some score \<Rightarrow> fullMaxLoop g d aiPlayer ms (max maxScore score)))"
| "fullMinLoop g d aiPlayer [] minScore = Some minScore"
| "fullMinLoop g d aiPlayer (m # ms) minScore =
     (case makeMove (clone g) (fst m) (snd m) of
        None \<Rightarrow> None
      | Some (ok, gameCopy) \<Rightarrow>
          (case fullMinimax gameCopy d True aiPlayer of
             None \<Rightarrow> None
           | Some score \<Rightarrow> fullMinLoop g d aiPlayer ms (min minScore score)))"
  by pat_completeness auto
termination
  by (relation "measures
        [\<lambda>x. case x of Inl (g, depth, _) \<Rightarrow> 2 * depth
              | Inr (Inl (g, d, _)) \<Rightarrow> 2 * d + 1
              | Inr (Inr (g, d, _)) \<Rightarrow> 2 * d + 1,
         \<lambda>x. case x of Inl _ \<Rightarrow> 0
              | Inr (Inl (g, d, ai, ms, _)) \<Rightarrow> length ms
              | Inr (Inr (g, d, ai, ms, _)) \<Rightarrow> length ms]") auto

fun fullRootLoop :: "nat \<Rightarrow> game \<Rightarrow> move list \<Rightarrow> move \<Rightarrow> number \<Rightarrow> (move \<times> number) option" where
  "fullRootLoop depth g [] bestMove bestScore = Some (bestMove, bestScore)"
| "fullRootLoop depth g (m # ms) bestMove bestScore =
     (case makeMove (clone g) (fst m) (snd m) of
        None \<Rightarrow> None
      | Some (ok, gameCopy) \<Rightarrow>
          (case fullMinimax gameCopy (depth - 1) False WHITE of
             None \<Rightarrow> None
           | Some score \<Rightarrow>
               if score > bestScore then fullRootLoop depth g ms m score
               else fullRootLoop depth g ms bestMove bestScore))"

definition fullGetMove :: "nat \<Rightarrow> game \<Rightarrow> move option option" where
  "fullGetMove depth g =
     (if length (validMoves g) = 0 then Some None
      else if length (validMoves g) = 1 then Some (Some (validMoves g ! 0))
      else map_option (\<lambda>(bestMove, bestScore). Some bestMove)
             (fullRootLoop depth g (validMoves g) (validMoves g ! 0) NegInf))"

text \<open>A state whose board has eight rows of eight cells and whose cached moves are cells
  of the grid.\<close>

definition wf_game :: "game \<Rightarrow> bool" where
  "wf_game g = (wf_board (board g) \<and> list_all (\<lambda>m. m \<in> set allCells) (validMoves g))"

text \<open>\<open>ab\<close> is the value a search with the window \<open>(a, b)\<close> may return for a node whose true
  value is \<open>v\<close>: exact inside the window, a bound on the true value outside.\<close>

definition inWindow :: "number \<Rightarrow> number \<Rightarrow> number \<Rightarrow> number \<Rightarrow> bool" where
  "inWindow a b v ab =
     ((a < ab \<and> ab < b \<longrightarrow> v = ab) \<and> (ab \<le> a \<longrightarrow> v \<le> ab) \<and> (b \<le> ab \<longrightarrow> v \<ge> ab))"



text \<open>A position with a forced pass: Black is to move and has no legal move, White has
  one. \<open>makeMove\<close> never leaves such a state behind (lemma \<open>reachable_cache\<close>).\<close>

definition passGame :: game where
  "passGame =
     \<lparr>board =
        [[Disc WHITE, Disc BLACK, EMPTY, EMPTY, EMPTY, EMPTY, EMPTY, EMPTY],
         [EMPTY, EMPTY, EMPTY, EMPTY, EMPTY, EMPTY, EMPTY, EMPTY],
         [EMPTY, EMPTY, EMPTY, EMPTY, EMPTY, EMPTY, EMPTY, EMPTY],
         [EMPTY, EMPTY, EMPTY, EMPTY, EMPTY, EMPTY, EMPTY, EMPTY],
         [EMPTY, EMPTY, EMPTY, EMPTY, EMPTY, EMPTY, EMPTY, EMPTY],
         [EMPTY, EMPTY, EMPTY, EMPTY, EMPTY, EMPTY, EMPTY, EMPTY],
         [EMPTY, EMPTY, EMPTY, EMPTY, EMPTY, EMPTY, EMPTY, EMPTY],
         [EMPTY, EMPTY, EMPTY, EMPTY, EMPTY, EMPTY, EMPTY, EMPTY]],
      currentPlayer = BLACK, gameOver = False, winner = None, lastMove = None,
      flippedDiscs = [], validMoves = [], moveHistory = []\<rparr>"

text \<open>
  Two positions with Black to move that are built by hand. In \<open>passBefore\<close> Black's move
  (0,2) leaves White without a legal move while Black still has (7,3): a forced pass. In
  \<open>tieBefore\<close> Black's move (0,2) leaves neither player a legal move, with three discs each.
\<close>

definition passBefore :: game where
  "passBefore =
     \<lparr>board =
        [[Disc BLACK, Disc WHITE, EMPTY, EMPTY, EMPTY, EMPTY, EMPTY, EMPTY],
         [EMPTY, EMPTY, EMPTY, EMPTY, EMPTY, EMPTY, EMPTY, EMPTY],
         [EMPTY, EMPTY, EMPTY, EMPTY, EMPTY, EMPTY, EMPTY, EMPTY],
         [EMPTY, EMPTY, EMPTY, EMPTY, EMPTY, EMPTY, EMPTY, EMPTY],
         [EMPTY, EMPTY, EMPTY, EMPTY, EMPTY, EMPTY, EMPTY, EMPTY],
         [EMPTY, EMPTY, EMPTY, EMPTY, EMPTY, EMPTY, EMPTY, EMPTY],
         [EMPTY, EMPTY, EMPTY, EMPTY, EMPTY, EMPTY, EMPTY, EMPTY],
         [Disc BLACK, Disc WHITE, Disc WHITE, EMPTY, EMPTY, EMPTY, EMPTY, EMPTY]],
      currentPlayer = BLACK, gameOver = False, winner = None, lastMove = None,
      flippedDiscs = [], validMoves = [(0, 2), (7, 3)], moveHistory = []\<rparr>"

definition tieBefore :: game where
  "tieBefore =
     \<lparr>board =
        [[Disc BLACK, Disc WHITE, EMPTY, EMPTY, EMPTY, EMPTY, EMPTY, EMPTY],
         [EMPTY, EMPTY, EMPTY, EMPTY, EMPTY, EMPTY, EMPTY, EMPTY],
         [EMPTY, EMPTY, EMPTY, EMPTY, EMPTY, EMPTY, EMPTY, EMPTY],
         [EMPTY, EMPTY, EMPTY, EMPTY, EMPTY, EMPTY, EMPTY, EMPTY],
         [EMPTY, EMPTY, EMPTY, EMPTY, EMPTY, EMPTY, EMPTY, EMPTY],
         [EMPTY, EMPTY, EMPTY, EMPTY, EMPTY, EMPTY, EMPTY, EMPTY],
         [EMPTY, EMPTY, EMPTY, EMPTY, EMPTY, EMPTY, EMPTY, EMPTY],
         [EMPTY, EMPTY, EMPTY, EMPTY, EMPTY, Disc WHITE, Disc WHITE, Disc WHITE]],
      currentPlayer = BLACK, gameOver = False, winner = None, lastMove = None,
      flippedDiscs = [], validMoves = [(0, 2)], moveHistory = []\<rparr>"

text \<open>The states after Black's (2,3), and after White's answer (2,2), from a new game.\<close>

definition whiteToMove :: game where
  "whiteToMove =
     \<lparr>board =
        [[EMPTY, EMPTY, EMPTY, EMPTY, EMPTY, EMPTY, EMPTY, EMPTY],
         [EMPTY, EMPTY, EMPTY, EMPTY, EMPTY, EMPTY, EMPTY, EMPTY],
         [EMPTY, EMPTY, EMPTY, Disc BLACK, EMPTY, EMPTY, EMPTY, EMPTY],
         [EMPTY, EMPTY, EMPTY, Disc BLACK, Disc BLACK, EMPTY, EMPTY, EMPTY],
         [EMPTY, EMPTY, EMPTY, Disc BLACK, Disc WHITE, EMPTY, EMPTY, EMPTY],
         [EMPTY, EMPTY, EMPTY, EMPTY, EMPTY, EMPTY, EMPTY, EMPTY],
         [EMPTY, EMPTY, EMPTY, EMPTY, EMPTY, EMPTY, EMPTY, EMPTY],
         [EMPTY, EMPTY, EMPTY, EMPTY, EMPTY, EMPTY, EMPTY, EMPTY]],
      currentPlayer = WHITE, gameOver = False, winner = None, lastMove = Some (2, 3),
      flippedDiscs = [(3, 3)], validMoves = [(2, 2), (2, 4), (4, 2)],
      moveHistory = [(2, 3, BLACK, [(3, 3)])]\<rparr>"

definition blackToMove :: game where
  "blackToMove =
     \<lparr>board =
        [[EMPTY, EMPTY, EMPTY, EMPTY, EMPTY, EMPTY, EMPTY, EMPTY],
         [EMPTY, EMPTY, EMPTY, EMPTY, EMPTY, EMPTY, EMPTY, EMPTY],
         [EMPTY, EMPTY, Disc WHITE, Disc BLACK, EMPTY, EMPTY, EMPTY, EMPTY],
         [EMPTY, EMPTY, EMPTY, Disc WHITE, Disc BLACK, EMPTY, EMPTY, EMPTY],
         [EMPTY, EMPTY, EMPTY, Disc BLACK, Disc WHITE, EMPTY, EMPTY, EMPTY],
         [EMPTY, EMPTY, EMPTY, EMPTY, EMPTY, EMPTY, EMPTY, EMPTY],
         [EMPTY, EMPTY, EMPTY, EMPTY, EMPTY, EMPTY, EMPTY, EMPTY],
         [EMPTY, EMPTY, EMPTY, EMPTY, EMPTY, EMPTY, EMPTY, EMPTY]],
      currentPlayer = BLACK, gameOver = False, winner = None, lastMove = Some (2, 2),
      flippedDiscs = [(3, 3)], validMoves = [(2, 1), (3, 2), (4, 5), (5, 4)],
      moveHistory = [(2, 3, BLACK, [(3, 3)]), (2, 2, WHITE, [(3, 3)])]\<rparr>"

section \<open>Boards in a store (clone, js/game.js)\<close>

text \<open>
  In the source \<open>this.board\<close> is an array of references to row arrays, \<open>makeMove\<close> writes
  the cells of these row arrays in place, and \<open>clone\<close> builds new row arrays
  (\<open>this.board.map(row => [...row])\<close>). To speak about sharing, the row arrays live in a
  store, at addresses; a new array takes the next free address. A game object holds the
  addresses of its rows and its other fields: these belong to the object itself
  (\<open>validMoves\<close> is copied into a new array and never written in place, \<open>moveHistory\<close> of the
  copy is the new array of the constructor). The component \<open>board\<close> of \<open>scalars\<close> is not
  used: the board of an object is what the store holds at its rows, and \<open>view\<close> is the
  state an object stands for.
\<close>

type_synonym addr = nat

type_synonym store = "cell list list"

record gameObj =
  rowRefs :: "addr list"
  scalars :: game

definition loadBoard :: "store \<Rightarrow> addr list \<Rightarrow> board option" where
  "loadBoard st refs =
     (if list_all (\<lambda>a. a < length st) refs then Some (map (\<lambda>a. st ! a) refs) else None)"

definition view :: "store \<Rightarrow> gameObj \<Rightarrow> game option" where
  "view st obj = map_option (\<lambda>b. (scalars obj)\<lparr>board := b\<rparr>) (loadBoard st (rowRefs obj))"

text \<open>Writing a board back into the row arrays of an object, in place. \<open>makeMove\<close> writes
  cells of the rows of \<open>this.board\<close> and nothing else in the store, so writing every row of
  the board it leaves has the effect of its writes.\<close>

fun storeRows :: "store \<Rightarrow> addr list \<Rightarrow> board \<Rightarrow> store option" where
  "storeRows st [] [] = Some st"
| "storeRows st (a # refs) (row # rows) =
     (if a < length st then storeRows (st[a := row]) refs rows else None)"
| "storeRows st [] (row # rows) = None"
| "storeRows st (a # refs) [] = None"

text \<open>\<open>makeMove\<close> and \<open>clone\<close> on an object in a store, and a list of calls of \<open>makeMove\<close> on
  one object, whatever they return.\<close>

definition makeMoveS :: "store \<Rightarrow> gameObj \<Rightarrow> int \<Rightarrow> int \<Rightarrow> (bool \<times> store \<times> gameObj) option" where
  "makeMoveS st obj row col = do {
     g \<leftarrow> view st obj;
     (ok, g') \<leftarrow> makeMove g row col;
     st' \<leftarrow> storeRows st (rowRefs obj) (board g');
     Some (ok, st', obj\<lparr>scalars := g'\<lparr>board := []\<rparr>\<rparr>)
   }"

definition cloneS :: "store \<Rightarrow> gameObj \<Rightarrow> (store \<times> gameObj) option" where
  "cloneS st obj = do {
     g \<leftarrow> view st obj;
     let copy = clone g;
     Some (st @ board copy,
           \<lparr>rowRefs = [length st ..< length st + length (board copy)],
            scalars = copy\<lparr>board := []\<rparr>\<rparr>)
   }"

fun playS :: "store \<Rightarrow> gameObj \<Rightarrow> move list \<Rightarrow> (store \<times> gameObj) option" where
  "playS st obj [] = Some (st, obj)"
| "playS st obj ((row, col) # ms) =
     (case makeMoveS st obj row col of
        None \<Rightarrow> None
      | Some (ok, st', obj') \<Rightarrow> playS st' obj' ms)"

text \<open>A new game in a store: its rows at the addresses 0 to 7.\<close>

definition srcStore :: store where
  "srcStore = startBoard"

definition srcObj :: gameObj where
  "srcObj = \<lparr>rowRefs = [0, 1, 2, 3, 4, 5, 6, 7], scalars = startGame\<lparr>board := []\<rparr>\<rparr>"

section \<open>Reads stay on the board\<close>

declare walkValid.simps [simp del] walkFlip.simps [simp del]

declare minimax.simps [simp del] fullMinimax.simps [simp del]

lemma cellAt_wf:
  assumes "wf_board b" "0 \<le> r" "r < 8" "0 \<le> c" "c < 8"
  shows "\<exists>x. cellAt b r c = Some x"
proof -
  from assms have "nat r < length b" by (simp add: wf_board_def)
  with assms have "length (b ! nat r) = 8"
    by (simp add: wf_board_def list_all_length)
  with assms show ?thesis by (simp add: cellAt_def wf_board_def)
qed

lemma walkValid_wf:
  assumes "wf_board b" "(dr, dc) \<noteq> (0, 0)"
  shows "\<exists>res. walkValid b opp dr dc r c f = Some res"
  using assms
proof (induction b opp dr dc r c f rule: walkValid.induct)
  case (1 b opp dr dc r c f)
  show ?case
  proof (cases "r \<ge> 0 \<and> r < 8 \<and> c \<ge> 0 \<and> c < 8")
    case True
    then obtain x where x: "cellAt b r c = Some x"
      using cellAt_wf[OF "1.prems"(1)] by blast
    show ?thesis
    proof (cases "x = Disc opp")
      case d: True
      from "1.prems"(2) have nz: "\<not> (dr = 0 \<and> dc = 0)" by simp
      from "1.IH"[OF True x d nz "1.prems"] show ?thesis
        using True x d nz by (subst walkValid.simps) simp
    next
      case False
      with True x show ?thesis by (subst walkValid.simps) simp
    qed
  next
    case False
    then show ?thesis by (subst walkValid.simps) auto
  qed
qed

lemma walkFlip_wf:
  assumes "wf_board b" "(dr, dc) \<noteq> (0, 0)"
  shows "\<exists>res. walkFlip b opp dr dc r c l = Some res"
  using assms
proof (induction b opp dr dc r c l rule: walkFlip.induct)
  case (1 b opp dr dc r c l)
  show ?case
  proof (cases "r \<ge> 0 \<and> r < 8 \<and> c \<ge> 0 \<and> c < 8")
    case True
    then obtain x where x: "cellAt b r c = Some x"
      using cellAt_wf[OF "1.prems"(1)] by blast
    show ?thesis
    proof (cases "x = Disc opp")
      case d: True
      from "1.prems"(2) have nz: "\<not> (dr = 0 \<and> dc = 0)" by simp
      from "1.IH"[OF True x d nz "1.prems"] show ?thesis
        using True x d nz by (subst walkFlip.simps) simp
    next
      case False
      with True x show ?thesis by (subst walkFlip.simps) simp
    qed
  next
    case False
    then show ?thesis by (subst walkFlip.simps) auto
  qed
qed

lemma dirsValid_wf:
  assumes "wf_board b" "(0, 0) \<notin> set ds"
  shows "\<exists>v. dirsValid b p row col ds = Some v"
  using assms(2)
proof (induction ds)
  case Nil
  show ?case by auto
next
  case (Cons d ds)
  obtain dr dc where d: "d = (dr, dc)" by (cases d)
  with Cons.prems have nz: "(dr, dc) \<noteq> (0, 0)" by auto
  from walkValid_wf[OF assms(1) nz]
  obtain r c f where w: "walkValid b (opponentOf p) dr dc (row + dr) (col + dc) False = Some (r, c, f)"
    by (metis prod_cases3)
  from Cons have ih: "\<exists>v. dirsValid b p row col ds = Some v" by simp
  show ?case
  proof (cases "f \<and> r \<ge> 0 \<and> r < 8 \<and> c \<ge> 0 \<and> c < 8")
    case True
    then obtain x where "cellAt b r c = Some x"
      using cellAt_wf[OF assms(1)] by blast
    with True w ih d show ?thesis by auto
  next
    case False
    with w ih d show ?thesis by auto
  qed
qed

lemma dirsFlip_wf:
  assumes "wf_board b" "(0, 0) \<notin> set ds"
  shows "\<exists>v. dirsFlip b p row col ds fl = Some v"
  using assms(2)
proof (induction ds arbitrary: fl)
  case Nil
  show ?case by simp
next
  case (Cons d ds)
  obtain dr dc where d: "d = (dr, dc)" by (cases d)
  with Cons.prems have nz: "(dr, dc) \<noteq> (0, 0)" by auto
  from walkFlip_wf[OF assms(1) nz]
  obtain r c l where w: "walkFlip b (opponentOf p) dr dc (row + dr) (col + dc) [] = Some (r, c, l)"
    by (metis prod_cases3)
  from Cons have ih: "\<And>fl. \<exists>v. dirsFlip b p row col ds fl = Some v" by simp
  show ?case
  proof (cases "length l > 0 \<and> r \<ge> 0 \<and> r < 8 \<and> c \<ge> 0 \<and> c < 8")
    case True
    then obtain x where "cellAt b r c = Some x"
      using cellAt_wf[OF assms(1)] by blast
    with True w ih d show ?thesis by auto
  next
    case False
    with w ih d show ?thesis by auto
  qed
qed

lemma directions_nonzero: "(0, 0) \<notin> set directions"
  by (simp add: directions_def)

lemma isValidMove_wf:
  assumes "wf_board b" "0 \<le> row" "row < 8" "0 \<le> col" "col < 8"
  shows "\<exists>v. isValidMove b row col p = Some v"
proof -
  obtain x where "cellAt b row col = Some x"
    using cellAt_wf[OF assms] by blast
  then show ?thesis
    using dirsValid_wf[OF assms(1) directions_nonzero, of p row col]
    by (auto simp: isValidMove_def)
qed

lemma getFlippedDiscs_wf:
  assumes "wf_board b"
  shows "\<exists>fl. getFlippedDiscs b row col p = Some fl"
  using dirsFlip_wf[OF assms directions_nonzero] by (simp add: getFlippedDiscs_def)


text \<open>
  C10. On a board of eight rows of eight cells, and for a row and a column in \<open>[0, 8)\<close>,
  \<open>isValidMove\<close> and \<open>getFlippedDiscs\<close> return a value for every player: no read of a cell
  falls outside the arrays (which would be \<open>None\<close>), and every walk ends.
\<close>

theorem reads_stay_on_board:
  assumes "wf_board b" "0 \<le> row" "row < 8" "0 \<le> col" "col < 8"
  shows "(\<exists>v. isValidMove b row col player = Some v) \<and>
         (\<exists>fl. getFlippedDiscs b row col player = Some fl)"
  using isValidMove_wf[OF assms] getFlippedDiscs_wf[OF assms(1)] by blast

theorem reads_stay_on_board_witness:
  "wf_board startBoard \<and> (0::int) \<le> 2 \<and> (2::int) < 8 \<and> (0::int) \<le> 3 \<and> (3::int) < 8 \<and>
   (\<exists>v. isValidMove startBoard 2 3 BLACK = Some v) \<and>
   (\<exists>fl. getFlippedDiscs startBoard 2 3 BLACK = Some fl)"
proof -
  have wf: "wf_board startBoard" by (simp add: wf_board_def startBoard_def)
  show ?thesis
    using wf reads_stay_on_board[OF wf, of 2 3 BLACK] by simp
qed

section \<open>The grid and its cells\<close>

lemma allCells_bounds: "(r, c) \<in> set allCells \<longleftrightarrow> 0 \<le> r \<and> r < 8 \<and> 0 \<le> c \<and> c < 8"
proof -
  have "set idx8 = {0..7}" by (auto simp: idx8_def)
  then show ?thesis by (force simp: allCells_def)
qed

lemma distinct_allCells: "distinct allCells"
  by (simp add: allCells_def idx8_def)

lemma length_allCells: "length allCells = 64"
  by (simp add: allCells_def idx8_def)

lemma cellAt_Some_bounds:
  assumes "wf_board b" "cellAt b r c = Some x"
  shows "0 \<le> r \<and> r < 8 \<and> 0 \<le> c \<and> c < 8"
proof -
  from assms(2) have r: "0 \<le> r" "r < int (length b)" and c: "0 \<le> c" "c < int (length (b ! nat r))"
    by (auto simp: cellAt_def split: if_splits)
  from r assms(1) have "nat r < length b" "r < 8" by (auto simp: wf_board_def)
  with assms(1) have "length (b ! nat r) = 8" by (simp add: wf_board_def list_all_length)
  with r c \<open>r < 8\<close> show ?thesis by simp
qed

lemma setCell_wf:
  assumes "wf_board b" "0 \<le> r" "r < 8" "0 \<le> c" "c < 8"
  shows "\<exists>b'. setCell b r c v = Some b'"
proof -
  from cellAt_wf[OF assms] show ?thesis
    by (auto simp: setCell_def cellAt_def split: if_splits)
qed

lemma setCell_Some:
  assumes "wf_board b" "setCell b r c v = Some b'"
  shows "wf_board b'" and "cellAt b' x y = (if x = r \<and> y = c then Some v else cellAt b x y)"
proof -
  from assms(2) have rc: "0 \<le> r" "r < int (length b)" "0 \<le> c" "c < int (length (b ! nat r))"
    and b': "b' = b[nat r := (b ! nat r)[nat c := v]]"
    by (auto simp: setCell_def split: if_splits)
  show "wf_board b'"
    using assms(1) rc unfolding b' wf_board_def list_all_length
    by (auto simp: nth_list_update)
  show "cellAt b' x y = (if x = r \<and> y = c then Some v else cellAt b x y)"
    using rc unfolding b' cellAt_def
    by (auto simp: nth_list_update nat_eq_iff)
qed

lemma findLoop_wf:
  assumes "wf_board b" "set cs \<subseteq> set allCells"
  shows "findLoop b p cs = Some (filter (\<lambda>(r, c). isValidMove b r c p = Some True) cs)"
  using assms(2)
proof (induction cs)
  case Nil
  show ?case by simp
next
  case (Cons x cs)
  obtain r c where x: "x = (r, c)" by (cases x)
  with Cons.prems have "0 \<le> r \<and> r < 8 \<and> 0 \<le> c \<and> c < 8" by (simp add: allCells_bounds)
  then obtain v where v: "isValidMove b r c p = Some v"
    using isValidMove_wf[OF assms(1)] by blast
  from Cons have "findLoop b p cs = Some (filter (\<lambda>(r, c). isValidMove b r c p = Some True) cs)"
    by simp
  with v x show ?case by simp
qed

lemma findValidMoves_wf:
  assumes "wf_board b"
  shows "findValidMoves b p = Some (filter (\<lambda>(r, c). isValidMove b r c p = Some True) allCells)"
  unfolding findValidMoves_def by (rule findLoop_wf[OF assms]) simp

lemma scoreLoop_wf:
  assumes "wf_board b" "set cs \<subseteq> set allCells"
  shows "scoreLoop b cs bk wh =
           Some (bk + int (length (filter (\<lambda>(r, c). cellAt b r c = Some (Disc BLACK)) cs)),
                 wh + int (length (filter (\<lambda>(r, c). cellAt b r c = Some (Disc WHITE)) cs)))"
  using assms(2)
proof (induction cs arbitrary: bk wh)
  case Nil
  show ?case by simp
next
  case (Cons x cs)
  obtain r c where x: "x = (r, c)" by (cases x)
  with Cons.prems have "0 \<le> r \<and> r < 8 \<and> 0 \<le> c \<and> c < 8" by (simp add: allCells_bounds)
  then obtain v where v: "cellAt b r c = Some v"
    using cellAt_wf[OF assms(1)] by blast
  from Cons have ih: "\<And>bk wh. scoreLoop b cs bk wh =
           Some (bk + int (length (filter (\<lambda>(r, c). cellAt b r c = Some (Disc BLACK)) cs)),
                 wh + int (length (filter (\<lambda>(r, c). cellAt b r c = Some (Disc WHITE)) cs)))"
    by simp
  show ?case using v x by (simp add: ih)
qed

lemma getScore_wf:
  assumes "wf_board b"
  shows "getScore b = Some (int (discCount b (Disc BLACK)), int (discCount b (Disc WHITE)))"
  unfolding getScore_def discCount_def using scoreLoop_wf[OF assms, of allCells 0 0] by simp

section \<open>The flipped discs\<close>

lemma walkFlip_char:
  assumes "walkFlip b opp dr dc r c line = Some (r', c', line')"
  shows "\<exists>ext. line' = line @ ext \<and> distinct ext \<and>
           (\<forall>m \<in> set ext. cellAt b (fst m) (snd m) = Some (Disc opp) \<and>
                (\<exists>k::int. k \<ge> 0 \<and> fst m = r + k * dr \<and> snd m = c + k * dc))"
  using assms
proof (induction b opp dr dc r c line rule: walkFlip.induct)
  case (1 b opp dr dc r c line)
  show ?case
  proof (cases "r \<ge> 0 \<and> r < 8 \<and> c \<ge> 0 \<and> c < 8")
    case False
    with "1.prems" have "line' = line" by (subst (asm) walkFlip.simps) auto
    then show ?thesis by simp
  next
    case True
    with "1.prems" obtain x where x: "cellAt b r c = Some x"
      by (subst (asm) walkFlip.simps) (auto split: option.splits)
    show ?thesis
    proof (cases "x = Disc opp")
      case False
      with True x "1.prems" have "line' = line" by (subst (asm) walkFlip.simps) auto
      then show ?thesis by simp
    next
      case d: True
      from True x d "1.prems" have nz: "\<not> (dr = 0 \<and> dc = 0)"
        and rec: "walkFlip b opp dr dc (r + dr) (c + dc) (line @ [(r, c)]) = Some (r', c', line')"
        by (subst (asm) walkFlip.simps, auto split: if_splits)+
      from "1.IH"[OF True x d nz rec]
      obtain ext where ext: "line' = (line @ [(r, c)]) @ ext" "distinct ext"
        and el: "\<forall>m \<in> set ext. cellAt b (fst m) (snd m) = Some (Disc opp) \<and>
                (\<exists>k::int. k \<ge> 0 \<and> fst m = r + dr + k * dr \<and> snd m = c + dc + k * dc)"
        by blast
      have notin: "(r, c) \<notin> set ext"
      proof
        assume "(r, c) \<in> set ext"
        with el obtain k :: int where k: "k \<ge> 0" "r = r + dr + k * dr" "c = c + dc + k * dc"
          by fastforce
        then have "(k + 1) * dr = 0" "(k + 1) * dc = 0" by (simp_all add: algebra_simps)
        with k(1) nz show False by auto
      qed
      have el': "\<forall>m \<in> set ((r, c) # ext). cellAt b (fst m) (snd m) = Some (Disc opp) \<and>
                (\<exists>k::int. k \<ge> 0 \<and> fst m = r + k * dr \<and> snd m = c + k * dc)"
      proof
        fix m assume m: "m \<in> set ((r, c) # ext)"
        show "cellAt b (fst m) (snd m) = Some (Disc opp) \<and>
                (\<exists>k::int. k \<ge> 0 \<and> fst m = r + k * dr \<and> snd m = c + k * dc)"
        proof (cases "m = (r, c)")
          case True
          with x d show ?thesis by (auto intro: exI[of _ 0])
        next
          case False
          with m el obtain k :: int where "cellAt b (fst m) (snd m) = Some (Disc opp)"
            "k \<ge> 0" "fst m = r + dr + k * dr" "snd m = c + dc + k * dc" by auto
          then show ?thesis by (auto intro!: exI[of _ "k + 1"] simp: algebra_simps)
        qed
      qed
      from ext notin el' show ?thesis by (intro exI[of _ "(r, c) # ext"]) simp
    qed
  qed
qed

lemma directions_cases:
  "(dr, dc) \<in> set directions \<Longrightarrow> dr \<in> {-1, 0, 1} \<and> dc \<in> {-1, 0, 1} \<and> \<not> (dr = 0 \<and> dc = 0)"
  by (auto simp: directions_def)

lemma distinct_directions: "distinct directions"
  by (simp add: directions_def)

lemma onRay_unique:
  assumes "(dr, dc) \<in> set directions" "(dr', dc') \<in> set directions"
    "onRay row col dr dc m" "onRay row col dr' dc' m"
  shows "(dr, dc) = (dr', dc')"
proof -
  from assms(3,4) obtain k k' :: int where k: "k \<ge> 1" "k' \<ge> 1"
    "k * dr = k' * dr'" "k * dc = k' * dc'"
    by (auto simp: onRay_def)
  from directions_cases[OF assms(1)] directions_cases[OF assms(2)] k
  show ?thesis by auto
qed

lemma onRay_not_origin:
  assumes "(dr, dc) \<in> set directions" "onRay row col dr dc m"
  shows "m \<noteq> (row, col)"
proof
  assume "m = (row, col)"
  with assms(2) obtain k :: int where "k \<ge> 1" "k * dr = 0" "k * dc = 0"
    by (auto simp: onRay_def)
  with directions_cases[OF assms(1)] show False by auto
qed

lemma dirsFlip_char:
  assumes "dirsFlip b p row col ds fl = Some fl'" "set ds \<subseteq> set directions" "distinct ds"
  shows "\<exists>ext. fl' = fl @ ext \<and> distinct ext \<and>
           (\<forall>m \<in> set ext. cellAt b (fst m) (snd m) = Some (Disc (opponentOf p)) \<and>
                (\<exists>d \<in> set ds. onRay row col (fst d) (snd d) m))"
  using assms
proof (induction ds arbitrary: fl)
  case Nil
  then show ?case by simp
next
  case (Cons d ds)
  obtain dr dc where d: "d = (dr, dc)" by (cases d)
  from Cons.prems(1) d obtain r c line where
    w: "walkFlip b (opponentOf p) dr dc (row + dr) (col + dc) [] = Some (r, c, line)"
    by (auto split: option.splits)
  from walkFlip_char[OF w] have line: "distinct line"
    and lel: "\<forall>m \<in> set line. cellAt b (fst m) (snd m) = Some (Disc (opponentOf p)) \<and>
                (\<exists>k::int. k \<ge> 0 \<and> fst m = row + dr + k * dr \<and> snd m = col + dc + k * dc)"
    by auto
  have lray: "\<forall>m \<in> set line. onRay row col dr dc m"
  proof
    fix m assume "m \<in> set line"
    with lel obtain k :: int where "k \<ge> 0" "fst m = row + dr + k * dr" "snd m = col + dc + k * dc"
      by blast
    then show "onRay row col dr dc m"
      unfolding onRay_def by (intro exI[of _ "k + 1"]) (simp add: algebra_simps)
  qed
  from Cons.prems have ds: "set ds \<subseteq> set directions" "distinct ds" "d \<notin> set ds"
    "d \<in> set directions" by auto
  consider (keep) "dirsFlip b p row col ds (fl @ line) = Some fl'"
    | (skip) "dirsFlip b p row col ds fl = Some fl'"
    using Cons.prems(1) d w by (auto split: option.splits if_splits)
  then show ?case
  proof cases
    case keep
    from Cons.IH[OF keep ds(1,2)] obtain ext where ext: "fl' = (fl @ line) @ ext" "distinct ext"
      and eel: "\<forall>m \<in> set ext. cellAt b (fst m) (snd m) = Some (Disc (opponentOf p)) \<and>
                (\<exists>d \<in> set ds. onRay row col (fst d) (snd d) m)"
      by blast
    have disj: "set line \<inter> set ext = {}"
    proof (rule ccontr)
      assume "set line \<inter> set ext \<noteq> {}"
      then obtain m where m: "m \<in> set line" "m \<in> set ext" by auto
      from m(2) eel obtain d' where d': "d' \<in> set ds" "onRay row col (fst d') (snd d') m" by blast
      from m(1) lray have "onRay row col dr dc m" by blast
      from onRay_unique[OF _ _ this d'(2)] ds(1,4) d'(1) d have "(dr, dc) = d'"
        by (metis prod.collapse subsetD)
      with d d'(1) ds(3) show False by simp
    qed
    show ?thesis
      using ext line disj lel lray eel d
      by (intro exI[of _ "line @ ext"]) (auto simp: )
  next
    case skip
    from Cons.IH[OF skip ds(1,2)] show ?thesis by auto
  qed
qed

lemma getFlippedDiscs_char:
  assumes "getFlippedDiscs b row col p = Some fl"
  shows "distinct fl" "(row, col) \<notin> set fl"
    "\<forall>m \<in> set fl. cellAt b (fst m) (snd m) = Some (Disc (opponentOf p))"
proof -
  from assms have "dirsFlip b p row col directions [] = Some fl" by (simp add: getFlippedDiscs_def)
  from dirsFlip_char[OF this subset_refl distinct_directions]
  have d: "distinct fl" and el: "\<forall>m \<in> set fl. cellAt b (fst m) (snd m) = Some (Disc (opponentOf p)) \<and>
                (\<exists>d \<in> set directions. onRay row col (fst d) (snd d) m)" by auto
  show "distinct fl" by (rule d)
  show "\<forall>m \<in> set fl. cellAt b (fst m) (snd m) = Some (Disc (opponentOf p))" using el by blast
  show "(row, col) \<notin> set fl"
  proof
    assume "(row, col) \<in> set fl"
    with el obtain d where "d \<in> set directions" "onRay row col (fst d) (snd d) (row, col)" by blast
    with onRay_not_origin[of "fst d" "snd d" row col "(row, col)"] show False by simp
  qed
qed

section \<open>What makeMove does\<close>

lemma setCell_defined:
  assumes "cellAt b r c = Some x"
  shows "\<exists>b'. setCell b r c v = Some b'"
  using assms by (auto simp: setCell_def cellAt_def split: if_splits)

lemma flipLoop_Some:
  assumes "wf_board b" "flipLoop b p fl = Some b'"
  shows "wf_board b' \<and>
         (\<forall>x y. cellAt b' x y = (if (x, y) \<in> set fl then Some (Disc p) else cellAt b x y))"
  using assms
proof (induction fl arbitrary: b)
  case Nil
  then show ?case by simp
next
  case (Cons m fl)
  obtain r c where m: "m = (r, c)" by (cases m)
  with Cons.prems obtain b1 where b1: "setCell b r c (Disc p) = Some b1"
    and rest: "flipLoop b1 p fl = Some b'"
    by (auto split: option.splits)
  note s = setCell_Some[OF Cons.prems(1) b1]
  from Cons.IH[OF s(1) rest] s(2) m show ?case by auto
qed

lemma flipLoop_defined:
  assumes "wf_board b" "\<forall>m \<in> set fl. \<exists>x. cellAt b (fst m) (snd m) = Some x"
  shows "\<exists>b'. flipLoop b p fl = Some b'"
  using assms
proof (induction fl arbitrary: b)
  case Nil
  show ?case by simp
next
  case (Cons m fl)
  obtain r c where m: "m = (r, c)" by (cases m)
  with Cons.prems(2) obtain x where "cellAt b r c = Some x" by auto
  from setCell_defined[OF this] obtain b1 where b1: "setCell b r c (Disc p) = Some b1" by blast
  note s = setCell_Some[OF Cons.prems(1) b1]
  have "\<forall>m \<in> set fl. \<exists>x. cellAt b1 (fst m) (snd m) = Some x"
    using Cons.prems(2) s(2) by auto
  from Cons.IH[OF s(1) this] b1 m show ?case by simp
qed

lemma isValidMove_True_empty:
  assumes "isValidMove b row col p = Some True"
  shows "cellAt b row col = Some EMPTY"
  using assms by (auto simp: isValidMove_def split: option.splits if_splits)

text \<open>What a successful call of makeMove leaves behind.\<close>

lemma makeMove_True:
  assumes "makeMove g row col = Some (True, g')"
  shows "\<not> gameOver g"
    and "isValidMove (board g) row col (currentPlayer g) = Some True"
    and "\<exists>fl b1. getFlippedDiscs (board g) row col (currentPlayer g) = Some fl \<and>
           setCell (board g) row col (Disc (currentPlayer g)) = Some b1 \<and>
           flipLoop b1 (currentPlayer g) fl = Some (board g') \<and>
           lastMove g' = Some (row, col) \<and> flippedDiscs g' = fl \<and>
           moveHistory g' = moveHistory g @ [(row, col, currentPlayer g, fl)]"
    and "\<exists>om. findValidMoves (board g') (opponentOf (currentPlayer g)) = Some om \<and>
           (if om \<noteq> [] then
              currentPlayer g' = opponentOf (currentPlayer g) \<and> validMoves g' = om \<and>
              \<not> gameOver g' \<and> winner g' = winner g
            else \<exists>cm. findValidMoves (board g') (currentPlayer g) = Some cm \<and>
              currentPlayer g' = currentPlayer g \<and>
              (if cm \<noteq> [] then validMoves g' = cm \<and> \<not> gameOver g' \<and> winner g' = winner g
               else gameOver g' \<and> validMoves g' = validMoves g \<and>
                 (\<exists>black white. getScore (board g') = Some (black, white) \<and>
                    winner g' = (if black > white then Some BLACK
                                 else if white > black then Some WHITE else None))))"
proof -
  from assms show no: "\<not> gameOver g"
    by (auto simp: makeMove_def split: if_splits)
  from assms no show v: "isValidMove (board g) row col (currentPlayer g) = Some True"
    by (auto simp: makeMove_def split: if_splits bind_splits)
  from assms no v obtain fl b1 b2 om where
    fl: "getFlippedDiscs (board g) row col (currentPlayer g) = Some fl"
    and b1: "setCell (board g) row col (Disc (currentPlayer g)) = Some b1"
    and b2: "flipLoop b1 (currentPlayer g) fl = Some b2"
    and om: "findValidMoves b2 (opponentOf (currentPlayer g)) = Some om"
    by (auto simp: makeMove_def Let_def split: if_splits bind_splits)
  let ?g1 = "g\<lparr>board := b2, lastMove := Some (row, col), flippedDiscs := fl,
                moveHistory := moveHistory g @ [(row, col, currentPlayer g, fl)]\<rparr>"
  have main: "(\<exists>fl b1. getFlippedDiscs (board g) row col (currentPlayer g) = Some fl \<and>
           setCell (board g) row col (Disc (currentPlayer g)) = Some b1 \<and>
           flipLoop b1 (currentPlayer g) fl = Some (board g') \<and>
           lastMove g' = Some (row, col) \<and> flippedDiscs g' = fl \<and>
           moveHistory g' = moveHistory g @ [(row, col, currentPlayer g, fl)]) \<and>
    (\<exists>om. findValidMoves (board g') (opponentOf (currentPlayer g)) = Some om \<and>
           (if om \<noteq> [] then
              currentPlayer g' = opponentOf (currentPlayer g) \<and> validMoves g' = om \<and>
              \<not> gameOver g' \<and> winner g' = winner g
            else \<exists>cm. findValidMoves (board g') (currentPlayer g) = Some cm \<and>
              currentPlayer g' = currentPlayer g \<and>
              (if cm \<noteq> [] then validMoves g' = cm \<and> \<not> gameOver g' \<and> winner g' = winner g
               else gameOver g' \<and> validMoves g' = validMoves g \<and>
                 (\<exists>black white. getScore (board g') = Some (black, white) \<and>
                    winner g' = (if black > white then Some BLACK
                                 else if white > black then Some WHITE else None)))))"
  proof (cases "om \<noteq> []")
    case True
    with assms no v fl b1 b2 om
    have "g' = ?g1\<lparr>currentPlayer := opponentOf (currentPlayer g), validMoves := om\<rparr>"
      by (simp add: makeMove_def Let_def)
    with True no fl b1 b2 om show ?thesis by simp
  next
    case False
    with assms no v fl b1 b2 om obtain cm where cm: "findValidMoves b2 (currentPlayer g) = Some cm"
      by (simp add: makeMove_def Let_def split: bind_splits)
    show ?thesis
    proof (cases "cm \<noteq> []")
      case True
      with assms no v fl b1 b2 om False cm
      have "g' = ?g1\<lparr>validMoves := cm\<rparr>"
        by (simp add: makeMove_def Let_def)
      with True False no cm fl b1 b2 om show ?thesis by simp
    next
      case c: False
      with assms no v fl b1 b2 om False cm
      have dw: "determineWinner (?g1\<lparr>gameOver := True\<rparr>) = Some g'"
        by (simp add: makeMove_def Let_def split: bind_splits)
      then obtain black white where sc: "getScore b2 = Some (black, white)"
        by (auto simp: determineWinner_def split: option.splits)
      with dw have "g' = ?g1\<lparr>gameOver := True,
           winner := (if black > white then Some BLACK
                      else if white > black then Some WHITE else None)\<rparr>"
        by (simp add: determineWinner_def split: if_splits)
      with c False cm sc fl b1 b2 om show ?thesis by simp
    qed
  qed
  show "\<exists>fl b1. getFlippedDiscs (board g) row col (currentPlayer g) = Some fl \<and>
           setCell (board g) row col (Disc (currentPlayer g)) = Some b1 \<and>
           flipLoop b1 (currentPlayer g) fl = Some (board g') \<and>
           lastMove g' = Some (row, col) \<and> flippedDiscs g' = fl \<and>
           moveHistory g' = moveHistory g @ [(row, col, currentPlayer g, fl)]"
    by (rule conjunct1[OF main])
  show "\<exists>om. findValidMoves (board g') (opponentOf (currentPlayer g)) = Some om \<and>
           (if om \<noteq> [] then
              currentPlayer g' = opponentOf (currentPlayer g) \<and> validMoves g' = om \<and>
              \<not> gameOver g' \<and> winner g' = winner g
            else \<exists>cm. findValidMoves (board g') (currentPlayer g) = Some cm \<and>
              currentPlayer g' = currentPlayer g \<and>
              (if cm \<noteq> [] then validMoves g' = cm \<and> \<not> gameOver g' \<and> winner g' = winner g
               else gameOver g' \<and> validMoves g' = validMoves g \<and>
                 (\<exists>black white. getScore (board g') = Some (black, white) \<and>
                    winner g' = (if black > white then Some BLACK
                                 else if white > black then Some WHITE else None))))"
    by (rule conjunct2[OF main])
qed

lemma makeMove_False:
  assumes "makeMove g row col = Some (False, g')"
  shows "g' = g" and "gameOver g \<or> isValidMove (board g) row col (currentPlayer g) = Some False"
  using assms
  by (auto simp: makeMove_def Let_def determineWinner_def
           split: if_splits bind_splits option.splits)

lemma makeMove_defined:
  assumes "wf_board (board g)" "0 \<le> row" "row < 8" "0 \<le> col" "col < 8"
  shows "\<exists>ok g'. makeMove g row col = Some (ok, g')"
proof (cases "gameOver g")
  case True
  then show ?thesis by (auto simp: makeMove_def)
next
  case no: False
  let ?b = "board g" and ?p = "currentPlayer g"
  from isValidMove_wf[OF assms] obtain v where v: "isValidMove ?b row col ?p = Some v" by blast
  show ?thesis
  proof (cases v)
    case False
    with no v show ?thesis by (auto simp: makeMove_def)
  next
    case True
    from getFlippedDiscs_wf[OF assms(1)] obtain fl where
      fl: "getFlippedDiscs ?b row col ?p = Some fl" by blast
    from setCell_wf[OF assms] obtain b1 where b1: "setCell ?b row col (Disc ?p) = Some b1" by blast
    note s = setCell_Some[OF assms(1) b1]
    have "\<forall>m \<in> set fl. \<exists>x. cellAt b1 (fst m) (snd m) = Some x"
      using getFlippedDiscs_char(3)[OF fl] s(2) by auto
    from flipLoop_defined[OF s(1) this] obtain b2 where b2: "flipLoop b1 ?p fl = Some b2" by blast
    from flipLoop_Some[OF s(1) b2] have wf2: "wf_board b2" by simp
    note fv = findValidMoves_wf[OF wf2] and sc = getScore_wf[OF wf2]
    show ?thesis
      using no v True fl b1 b2
      by (auto simp: makeMove_def Let_def fv sc determineWinner_def)
  qed
qed

lemma makeMove_wf:
  assumes "wf_board (board g)" "makeMove g row col = Some (ok, g')"
  shows "wf_board (board g')"
proof (cases ok)
  case False
  with assms makeMove_False(1)[of g row col g'] show ?thesis by auto
next
  case True
  with assms(2) have "makeMove g row col = Some (True, g')" by simp
  from makeMove_True(3)[OF this] obtain fl b1 where
    b1: "setCell (board g) row col (Disc (currentPlayer g)) = Some b1"
    and b2: "flipLoop b1 (currentPlayer g) fl = Some (board g')" by blast
  from flipLoop_Some[OF setCell_Some(1)[OF assms(1) b1] b2] show ?thesis by simp
qed

lemma init_startGame: "init = Some startGame"
  by code_simp

lemma wf_startBoard: "wf_board startBoard"
  by (simp add: wf_board_def startBoard_def)

lemma first_move_succeeds: "map_option fst (makeMove startGame 2 3) = Some True"
  by code_simp

text \<open>
  C7. On a board of eight rows of eight cells and for coordinates in range, \<open>makeMove\<close>
  returns a value (it raises nothing); it returns \<open>false\<close> exactly when the game is over or
  the move is not legal for \<open>currentPlayer\<close>, and then the whole state is unchanged; in all
  other cases it returns \<open>true\<close>.
\<close>

theorem makeMove_all_or_nothing:
  assumes "wf_board (board g)" "0 \<le> row" "row < 8" "0 \<le> col" "col < 8"
  shows "\<exists>ok g'. makeMove g row col = Some (ok, g') \<and>
           (ok \<longleftrightarrow> \<not> gameOver g \<and> isValidMove (board g) row col (currentPlayer g) = Some True) \<and>
           (\<not> ok \<longrightarrow> g' = g)"
proof -
  from makeMove_defined[OF assms] obtain ok g' where mk: "makeMove g row col = Some (ok, g')"
    by blast
  show ?thesis
  proof (cases ok)
    case True
    with mk have "makeMove g row col = Some (True, g')" by simp
    from makeMove_True(1,2)[OF this] mk True show ?thesis by auto
  next
    case False
    with mk have "makeMove g row col = Some (False, g')" by simp
    from makeMove_False[OF this] mk False show ?thesis by auto
  qed
qed

theorem makeMove_all_or_nothing_witness:
  "wf_board (board startGame) \<and> (0::int) \<le> 2 \<and> (2::int) < 8 \<and> (0::int) \<le> 3 \<and> (3::int) < 8 \<and>
   (\<exists>ok g'. makeMove startGame 2 3 = Some (ok, g') \<and>
      (ok \<longleftrightarrow> \<not> gameOver startGame \<and>
         isValidMove (board startGame) 2 3 (currentPlayer startGame) = Some True) \<and>
      (\<not> ok \<longrightarrow> g' = startGame))"
proof -
  have wf: "wf_board (board startGame)" by (simp add: startGame_def wf_startBoard)
  show ?thesis using wf makeMove_all_or_nothing[OF wf, of 2 3] by simp
qed

lemma findValidMoves_legalMoves:
  assumes "wf_board b"
  shows "findValidMoves b p = Some (legalMoves b p)"
  by (simp add: findValidMoves_wf[OF assms] legalMoves_def)

text \<open>
  C2. After a call of \<open>makeMove\<close> that returned \<open>true\<close> on a board of eight rows of eight
  cells, on the board it leaves (where \<open>findValidMoves\<close> gives exactly the cells of the grid
  that pass \<open>isValidMove\<close>): if the opponent of the mover has a legal move, \<open>currentPlayer\<close>
  is the opponent and the game goes on; otherwise, if the mover has a legal move,
  \<open>currentPlayer\<close> is still the mover and the game goes on; otherwise \<open>gameOver\<close> is set, and
  \<open>winner\<close> is the player who holds strictly more cells of the grid, or absent when both hold
  the same number. So \<open>gameOver\<close> is set exactly when neither player has a legal move.
\<close>

theorem turn_advance:
  assumes "wf_board (board g)" "makeMove g row col = Some (True, g')"
  shows "findValidMoves (board g') (opponentOf (currentPlayer g))
           = Some (legalMoves (board g') (opponentOf (currentPlayer g))) \<and>
         findValidMoves (board g') (currentPlayer g)
           = Some (legalMoves (board g') (currentPlayer g)) \<and>
         (if legalMoves (board g') (opponentOf (currentPlayer g)) \<noteq> [] then
            currentPlayer g' = opponentOf (currentPlayer g) \<and> \<not> gameOver g'
          else if legalMoves (board g') (currentPlayer g) \<noteq> [] then
            currentPlayer g' = currentPlayer g \<and> \<not> gameOver g'
          else
            gameOver g' \<and>
            winner g' =
              (if discCount (board g') (Disc BLACK) > discCount (board g') (Disc WHITE)
               then Some BLACK
               else if discCount (board g') (Disc WHITE) > discCount (board g') (Disc BLACK)
               then Some WHITE
               else None))"
proof -
  let ?b = "board g'" and ?p = "currentPlayer g"
  let ?o = "opponentOf ?p"
  from makeMove_wf[OF assms] have wf': "wf_board ?b" .
  note fo = findValidMoves_legalMoves[OF wf', of ?o]
  note fp = findValidMoves_legalMoves[OF wf', of ?p]
  note sc = getScore_wf[OF wf']
  from makeMove_True(4)[OF assms(2)] obtain om where
    om: "findValidMoves ?b ?o = Some om"
    and rest: "if om \<noteq> [] then
              currentPlayer g' = ?o \<and> validMoves g' = om \<and>
              \<not> gameOver g' \<and> winner g' = winner g
            else \<exists>cm. findValidMoves ?b ?p = Some cm \<and>
              currentPlayer g' = ?p \<and>
              (if cm \<noteq> [] then validMoves g' = cm \<and> \<not> gameOver g' \<and> winner g' = winner g
               else gameOver g' \<and> validMoves g' = validMoves g \<and>
                 (\<exists>black white. getScore ?b = Some (black, white) \<and>
                    winner g' = (if black > white then Some BLACK
                                 else if white > black then Some WHITE else None)))"
    by blast
  from om fo have om_eq: "om = legalMoves ?b ?o" by simp
  have third: "if legalMoves ?b ?o \<noteq> [] then currentPlayer g' = ?o \<and> \<not> gameOver g'
          else if legalMoves ?b ?p \<noteq> [] then currentPlayer g' = ?p \<and> \<not> gameOver g'
          else
            gameOver g' \<and>
            winner g' =
              (if discCount ?b (Disc BLACK) > discCount ?b (Disc WHITE) then Some BLACK
               else if discCount ?b (Disc WHITE) > discCount ?b (Disc BLACK) then Some WHITE
               else None)"
  proof (cases "legalMoves ?b ?o \<noteq> []")
    case True
    with rest om_eq show ?thesis by simp
  next
    case False
    with rest om_eq obtain cm where cm: "findValidMoves ?b ?p = Some cm"
      and cp: "currentPlayer g' = ?p"
      and r2: "if cm \<noteq> [] then validMoves g' = cm \<and> \<not> gameOver g' \<and> winner g' = winner g
               else gameOver g' \<and> validMoves g' = validMoves g \<and>
                 (\<exists>black white. getScore ?b = Some (black, white) \<and>
                    winner g' = (if black > white then Some BLACK
                                 else if white > black then Some WHITE else None))"
      by auto
    from cm fp have cm_eq: "cm = legalMoves ?b ?p" by simp
    show ?thesis
    proof (cases "legalMoves ?b ?p \<noteq> []")
      case True
      with False cp r2 cm_eq show ?thesis by simp
    next
      case c: False
      with r2 cm_eq obtain black white where gs: "getScore ?b = Some (black, white)"
        and w: "winner g' = (if black > white then Some BLACK
                             else if white > black then Some WHITE else None)"
        and over: "gameOver g'" by auto
      from gs sc have "black = int (discCount ?b (Disc BLACK))"
        "white = int (discCount ?b (Disc WHITE))" by simp_all
      with w have "winner g' =
              (if discCount ?b (Disc BLACK) > discCount ?b (Disc WHITE) then Some BLACK
               else if discCount ?b (Disc WHITE) > discCount ?b (Disc BLACK) then Some WHITE
               else None)" by simp
      with False c over show ?thesis by simp
    qed
  qed
  from fo fp third show ?thesis by blast
qed

theorem turn_advance_witness:
  "wf_board (board startGame) \<and> wf_board (board passBefore) \<and> wf_board (board tieBefore) \<and>
   (\<exists>g'. makeMove startGame 2 3 = Some (True, g') \<and>
      legalMoves (board g') WHITE = [(2, 2), (2, 4), (4, 2)] \<and>
      currentPlayer g' = WHITE \<and> \<not> gameOver g') \<and>
   (\<exists>g'. makeMove passBefore 0 2 = Some (True, g') \<and>
      legalMoves (board g') WHITE = [] \<and> legalMoves (board g') BLACK = [(7, 3)] \<and>
      currentPlayer g' = BLACK \<and> \<not> gameOver g') \<and>
   (\<exists>g'. makeMove tieBefore 0 2 = Some (True, g') \<and>
      legalMoves (board g') WHITE = [] \<and> legalMoves (board g') BLACK = [] \<and>
      discCount (board g') (Disc BLACK) = 3 \<and> discCount (board g') (Disc WHITE) = 3 \<and>
      gameOver g' \<and> winner g' = None) \<and>
   (\<exists>g g'. playMoves startGame [(2, 3), (2, 2), (2, 1), (1, 3), (0, 4), (5, 3), (6, 3), (2, 4)]
               = Some g \<and>
      wf_board (board g) \<and> currentPlayer g = BLACK \<and> makeMove g 3 5 = Some (True, g') \<and>
      legalMoves (board g') WHITE = [] \<and> legalMoves (board g') BLACK = [] \<and>
      discCount (board g') (Disc BLACK) = 13 \<and> discCount (board g') (Disc WHITE) = 0 \<and>
      gameOver g' \<and> winner g' = Some BLACK) \<and>
   (\<exists>g g'. playMoves startGame
               [(2, 3), (2, 2), (2, 1), (2, 4), (4, 5), (2, 0), (3, 2), (5, 4), (3, 5)]
               = Some g \<and>
      wf_board (board g) \<and> currentPlayer g = WHITE \<and> makeMove g 3 6 = Some (True, g') \<and>
      legalMoves (board g') WHITE = [] \<and> legalMoves (board g') BLACK = [] \<and>
      discCount (board g') (Disc BLACK) = 0 \<and> discCount (board g') (Disc WHITE) = 14 \<and>
      gameOver g' \<and> winner g' = Some WHITE)"
proof -
  have opp: "opponentOf BLACK = WHITE" "opponentOf WHITE = BLACK"
    by (simp_all add: opponentOf_def)
  have wf1: "wf_board (board startGame)" by (simp add: startGame_def wf_startBoard)
  have wf2: "wf_board (board passBefore)" by (simp add: passBefore_def wf_board_def)
  have wf3: "wf_board (board tieBefore)" by (simp add: tieBefore_def wf_board_def)
  have cp: "currentPlayer startGame = BLACK" "currentPlayer passBefore = BLACK"
    "currentPlayer tieBefore = BLACK"
    by (simp_all add: startGame_def passBefore_def tieBefore_def)
  have first: "\<exists>g'. makeMove startGame 2 3 = Some (True, g') \<and>
      legalMoves (board g') WHITE = [(2, 2), (2, 4), (4, 2)] \<and>
      currentPlayer g' = WHITE \<and> \<not> gameOver g'"
  proof -
    have "map_option (\<lambda>(ok, g'). (ok, legalMoves (board g') WHITE, currentPlayer g', gameOver g'))
            (makeMove startGame 2 3) = Some (True, [(2, 2), (2, 4), (4, 2)], WHITE, False)"
      by code_simp
    then obtain g' where mk: "makeMove startGame 2 3 = Some (True, g')"
      and l: "legalMoves (board g') WHITE = [(2, 2), (2, 4), (4, 2)]"
      and run: "currentPlayer g' = WHITE" "\<not> gameOver g'" by auto
    from turn_advance[OF wf1 mk] l have "currentPlayer g' = WHITE \<and> \<not> gameOver g'"
      by (simp add: cp opp)
    with mk l run show ?thesis by blast
  qed
  have second: "\<exists>g'. makeMove passBefore 0 2 = Some (True, g') \<and>
      legalMoves (board g') WHITE = [] \<and> legalMoves (board g') BLACK = [(7, 3)] \<and>
      currentPlayer g' = BLACK \<and> \<not> gameOver g'"
  proof -
    have "map_option (\<lambda>(ok, g'). (ok, legalMoves (board g') WHITE, legalMoves (board g') BLACK,
              currentPlayer g', gameOver g'))
            (makeMove passBefore 0 2) = Some (True, [], [(7, 3)], BLACK, False)"
      by code_simp
    then obtain g' where mk: "makeMove passBefore 0 2 = Some (True, g')"
      and l: "legalMoves (board g') WHITE = []" "legalMoves (board g') BLACK = [(7, 3)]"
      and run: "currentPlayer g' = BLACK" "\<not> gameOver g'" by auto
    from turn_advance[OF wf2 mk] l have "currentPlayer g' = BLACK \<and> \<not> gameOver g'"
      by (simp add: cp opp)
    with mk l run show ?thesis by blast
  qed
  have third: "\<exists>g'. makeMove tieBefore 0 2 = Some (True, g') \<and>
      legalMoves (board g') WHITE = [] \<and> legalMoves (board g') BLACK = [] \<and>
      discCount (board g') (Disc BLACK) = 3 \<and> discCount (board g') (Disc WHITE) = 3 \<and>
      gameOver g' \<and> winner g' = None"
  proof -
    have "map_option (\<lambda>(ok, g'). (ok, legalMoves (board g') WHITE, legalMoves (board g') BLACK,
              discCount (board g') (Disc BLACK), discCount (board g') (Disc WHITE),
              gameOver g', winner g'))
            (makeMove tieBefore 0 2) = Some (True, [], [], 3, 3, True, None)"
      by code_simp
    then obtain g' where mk: "makeMove tieBefore 0 2 = Some (True, g')"
      and l: "legalMoves (board g') WHITE = []" "legalMoves (board g') BLACK = []"
        "discCount (board g') (Disc BLACK) = 3" "discCount (board g') (Disc WHITE) = 3"
      and run: "gameOver g'" "winner g' = None" by auto
    from turn_advance[OF wf3 mk] l have "gameOver g' \<and> winner g' = None"
      by (simp add: cp opp)
    with mk l run show ?thesis by blast
  qed
  have fourth: "\<exists>g g'. playMoves startGame [(2, 3), (2, 2), (2, 1), (1, 3), (0, 4), (5, 3), (6, 3), (2, 4)]
               = Some g \<and>
      wf_board (board g) \<and> currentPlayer g = BLACK \<and> makeMove g 3 5 = Some (True, g') \<and>
      legalMoves (board g') WHITE = [] \<and> legalMoves (board g') BLACK = [] \<and>
      discCount (board g') (Disc BLACK) = 13 \<and> discCount (board g') (Disc WHITE) = 0 \<and>
      gameOver g' \<and> winner g' = Some BLACK"
  proof -
    have "(playMoves startGame [(2, 3), (2, 2), (2, 1), (1, 3), (0, 4), (5, 3), (6, 3), (2, 4)] \<bind>
            (\<lambda>g. map_option (\<lambda>(ok, g'). (wf_board (board g), currentPlayer g, ok,
                legalMoves (board g') WHITE, legalMoves (board g') BLACK,
                discCount (board g') (Disc BLACK), discCount (board g') (Disc WHITE),
                gameOver g', winner g'))
              (makeMove g 3 5))) = Some (True, BLACK, True, [], [], 13, 0, True, Some BLACK)"
      by code_simp
    then obtain g g' where
      pm: "playMoves startGame [(2, 3), (2, 2), (2, 1), (1, 3), (0, 4), (5, 3), (6, 3), (2, 4)] = Some g"
      and wf: "wf_board (board g)" and c: "currentPlayer g = BLACK"
      and mk: "makeMove g 3 5 = Some (True, g')"
      and l: "legalMoves (board g') WHITE = []" "legalMoves (board g') BLACK = []"
        "discCount (board g') (Disc BLACK) = 13" "discCount (board g') (Disc WHITE) = 0"
      and run: "gameOver g'" "winner g' = Some BLACK"
      by (auto split: bind_splits)
    from turn_advance[OF wf mk] l have "gameOver g' \<and> winner g' = Some BLACK"
      by (simp add: c opp)
    with pm wf c mk l run show ?thesis by blast
  qed
  have fifth: "\<exists>g g'. playMoves startGame
               [(2, 3), (2, 2), (2, 1), (2, 4), (4, 5), (2, 0), (3, 2), (5, 4), (3, 5)]
               = Some g \<and>
      wf_board (board g) \<and> currentPlayer g = WHITE \<and> makeMove g 3 6 = Some (True, g') \<and>
      legalMoves (board g') WHITE = [] \<and> legalMoves (board g') BLACK = [] \<and>
      discCount (board g') (Disc BLACK) = 0 \<and> discCount (board g') (Disc WHITE) = 14 \<and>
      gameOver g' \<and> winner g' = Some WHITE"
  proof -
    have "(playMoves startGame
             [(2, 3), (2, 2), (2, 1), (2, 4), (4, 5), (2, 0), (3, 2), (5, 4), (3, 5)] \<bind>
            (\<lambda>g. map_option (\<lambda>(ok, g'). (wf_board (board g), currentPlayer g, ok,
                legalMoves (board g') WHITE, legalMoves (board g') BLACK,
                discCount (board g') (Disc BLACK), discCount (board g') (Disc WHITE),
                gameOver g', winner g'))
              (makeMove g 3 6))) = Some (True, WHITE, True, [], [], 0, 14, True, Some WHITE)"
      by code_simp
    then obtain g g' where
      pm: "playMoves startGame
             [(2, 3), (2, 2), (2, 1), (2, 4), (4, 5), (2, 0), (3, 2), (5, 4), (3, 5)] = Some g"
      and wf: "wf_board (board g)" and c: "currentPlayer g = WHITE"
      and mk: "makeMove g 3 6 = Some (True, g')"
      and l: "legalMoves (board g') WHITE = []" "legalMoves (board g') BLACK = []"
        "discCount (board g') (Disc BLACK) = 0" "discCount (board g') (Disc WHITE) = 14"
      and run: "gameOver g'" "winner g' = Some WHITE"
      by (auto split: bind_splits)
    from turn_advance[OF wf mk] l have "gameOver g' \<and> winner g' = Some WHITE"
      by (simp add: c opp)
    with pm wf c mk l run show ?thesis by blast
  qed
  from wf1 wf2 wf3 first second third fourth fifth show ?thesis by blast
qed

section \<open>Disc counts\<close>

lemma discCount_card: "discCount b v = card (cellsWith b v)"
proof -
  have "(\<lambda>(r, c). cellAt b r c = Some v) = (\<lambda>m. cellAt b (fst m) (snd m) = Some v)"
    by auto
  then have "discCount b v = length (filter (\<lambda>m. cellAt b (fst m) (snd m) = Some v) allCells)"
    by (simp add: discCount_def)
  also have "\<dots> = card (set (filter (\<lambda>m. cellAt b (fst m) (snd m) = Some v) allCells))"
    by (rule distinct_card[symmetric]) (simp add: distinct_allCells)
  finally show ?thesis by (simp add: cellsWith_def)
qed

lemma finite_cellsWith: "finite (cellsWith b v)"
  by (simp add: cellsWith_def)

lemma cellAt_in_allCells:
  assumes "wf_board b" "cellAt b (fst m) (snd m) = Some x"
  shows "m \<in> set allCells"
  using cellAt_Some_bounds[OF assms] allCells_bounds[of "fst m" "snd m"] by simp

lemma opponentOf_neq: "opponentOf p \<noteq> p"
  by (cases p) (simp_all add: opponentOf_def)

lemma three_way_count:
  assumes "\<forall>x \<in> set xs. (P x \<or> Q x \<or> R x) \<and> \<not> (P x \<and> Q x) \<and> \<not> (P x \<and> R x) \<and> \<not> (Q x \<and> R x)"
  shows "length (filter P xs) + length (filter Q xs) + length (filter R xs) = length xs"
  using assms by (induction xs) auto

lemma discCount_total:
  assumes "wf_board b"
  shows "discCount b (Disc BLACK) + discCount b (Disc WHITE) + discCount b EMPTY = 64"
proof -
  have "\<forall>m \<in> set allCells.
          ((\<lambda>(r, c). cellAt b r c = Some (Disc BLACK)) m \<or>
           (\<lambda>(r, c). cellAt b r c = Some (Disc WHITE)) m \<or>
           (\<lambda>(r, c). cellAt b r c = Some EMPTY) m) \<and>
          \<not> ((\<lambda>(r, c). cellAt b r c = Some (Disc BLACK)) m \<and> (\<lambda>(r, c). cellAt b r c = Some (Disc WHITE)) m) \<and>
          \<not> ((\<lambda>(r, c). cellAt b r c = Some (Disc BLACK)) m \<and> (\<lambda>(r, c). cellAt b r c = Some EMPTY) m) \<and>
          \<not> ((\<lambda>(r, c). cellAt b r c = Some (Disc WHITE)) m \<and> (\<lambda>(r, c). cellAt b r c = Some EMPTY) m)"
  proof
    fix m assume m: "m \<in> set allCells"
    obtain r c where rc: "m = (r, c)" by (cases m)
    with m have "0 \<le> r \<and> r < 8 \<and> 0 \<le> c \<and> c < 8" by (simp add: allCells_bounds)
    then obtain x where x: "cellAt b r c = Some x" using cellAt_wf[OF assms] by blast
    show "((\<lambda>(r, c). cellAt b r c = Some (Disc BLACK)) m \<or>
           (\<lambda>(r, c). cellAt b r c = Some (Disc WHITE)) m \<or>
           (\<lambda>(r, c). cellAt b r c = Some EMPTY) m) \<and>
          \<not> ((\<lambda>(r, c). cellAt b r c = Some (Disc BLACK)) m \<and> (\<lambda>(r, c). cellAt b r c = Some (Disc WHITE)) m) \<and>
          \<not> ((\<lambda>(r, c). cellAt b r c = Some (Disc BLACK)) m \<and> (\<lambda>(r, c). cellAt b r c = Some EMPTY) m) \<and>
          \<not> ((\<lambda>(r, c). cellAt b r c = Some (Disc WHITE)) m \<and> (\<lambda>(r, c). cellAt b r c = Some EMPTY) m)"
    proof (cases x)
      case EMPTY
      with x rc show ?thesis by simp
    next
      case (Disc p)
      with x rc show ?thesis by (cases p) simp_all
    qed
  qed
  from three_way_count[OF this] show ?thesis
    by (simp add: discCount_def length_allCells)
qed

text \<open>The board after a successful move, cell by cell.\<close>

lemma makeMove_board:
  assumes "wf_board (board g)" "makeMove g row col = Some (True, g')"
    "getFlippedDiscs (board g) row col (currentPlayer g) = Some fl"
  shows "cellAt (board g') x y =
           (if (x, y) = (row, col) \<or> (x, y) \<in> set fl then Some (Disc (currentPlayer g))
            else cellAt (board g) x y)"
proof -
  from makeMove_True(3)[OF assms(2)] assms(3) obtain b1 where
    b1: "setCell (board g) row col (Disc (currentPlayer g)) = Some b1"
    and b2: "flipLoop b1 (currentPlayer g) fl = Some (board g')" by auto
  note s = setCell_Some[OF assms(1) b1]
  from flipLoop_Some[OF s(1) b2] s(2) show ?thesis by auto
qed

text \<open>
  C6. When \<open>makeMove\<close> returns \<open>true\<close> on a board of eight rows of eight cells, and \<open>fl\<close> is
  the list \<open>getFlippedDiscs\<close> gives for the move on the board before it, then the mover has
  \<open>1 + length fl\<close> discs more than before, the opponent has \<open>length fl\<close> discs fewer, and the
  black, white and empty cells are 64 together.
\<close>

theorem disc_counts_after_move:
  assumes "wf_board (board g)" "makeMove g row col = Some (True, g')"
    "getFlippedDiscs (board g) row col (currentPlayer g) = Some fl"
  shows "discCount (board g') (Disc (currentPlayer g)) =
           discCount (board g) (Disc (currentPlayer g)) + 1 + length fl \<and>
         discCount (board g') (Disc (opponentOf (currentPlayer g))) + length fl =
           discCount (board g) (Disc (opponentOf (currentPlayer g))) \<and>
         discCount (board g') (Disc BLACK) + discCount (board g') (Disc WHITE) +
           discCount (board g') EMPTY = 64"
proof -
  let ?b = "board g" and ?b' = "board g'" and ?p = "currentPlayer g"
  let ?o = "opponentOf ?p"
  note cell = makeMove_board[OF assms]
  note fl = getFlippedDiscs_char[OF assms(3)]
  from isValidMove_True_empty[OF makeMove_True(2)[OF assms(2)]]
  have empty: "cellAt ?b row col = Some EMPTY" .
  have rc_in: "(row, col) \<in> set allCells"
    using cellAt_in_allCells[OF assms(1), of "(row, col)"] empty by simp
  have fl_in: "set fl \<subseteq> set allCells"
    using cellAt_in_allCells[OF assms(1)] fl(3) by blast
  have fl_opp: "set fl \<subseteq> cellsWith ?b (Disc ?o)"
    using fl(3) fl_in by (auto simp: cellsWith_def)
  have mover: "cellsWith ?b' (Disc ?p) = cellsWith ?b (Disc ?p) \<union> ({(row, col)} \<union> set fl)"
    using rc_in fl_in by (auto simp: cellsWith_def cell)
  have disj: "cellsWith ?b (Disc ?p) \<inter> ({(row, col)} \<union> set fl) = {}"
    using empty fl(3) opponentOf_neq[of ?p] by (auto simp: cellsWith_def)
  have "card (cellsWith ?b' (Disc ?p)) = card (cellsWith ?b (Disc ?p)) + card ({(row, col)} \<union> set fl)"
    unfolding mover by (rule card_Un_disjoint[OF finite_cellsWith _ disj]) simp
  also have "card ({(row, col)} \<union> set fl) = 1 + length fl"
    using fl(1,2) by (simp add: distinct_card)
  finally have c1: "discCount ?b' (Disc ?p) = discCount ?b (Disc ?p) + 1 + length fl"
    by (simp add: discCount_card)
  have opp: "cellsWith ?b' (Disc ?o) = cellsWith ?b (Disc ?o) - set fl"
    using empty opponentOf_neq[of ?p] by (auto simp: cellsWith_def cell)
  have "card (cellsWith ?b' (Disc ?o)) = card (cellsWith ?b (Disc ?o)) - card (set fl)"
    unfolding opp by (rule card_Diff_subset[OF _ fl_opp]) simp
  moreover have "card (set fl) \<le> card (cellsWith ?b (Disc ?o))"
    by (rule card_mono[OF finite_cellsWith fl_opp])
  ultimately have c2: "discCount ?b' (Disc ?o) + length fl = discCount ?b (Disc ?o)"
    using fl(1) by (simp add: discCount_card distinct_card)
  from makeMove_wf[OF assms(1,2)] have "wf_board ?b'" .
  from discCount_total[OF this] c1 c2 show ?thesis by simp
qed

theorem disc_counts_after_move_witness:
  "wf_board (board startGame) \<and>
   getFlippedDiscs (board startGame) 2 3 (currentPlayer startGame) = Some [(3, 3)] \<and>
   (\<exists>g'. makeMove startGame 2 3 = Some (True, g') \<and>
      discCount (board g') (Disc BLACK) = 4 \<and> discCount (board g') (Disc WHITE) = 1 \<and>
      discCount (board g') EMPTY = 59)"
proof -
  have wf: "wf_board (board startGame)" by (simp add: startGame_def wf_startBoard)
  have fl: "getFlippedDiscs (board startGame) 2 3 (currentPlayer startGame) = Some [(3, 3)]"
    by code_simp
  from first_move_succeeds obtain g' where mk: "makeMove startGame 2 3 = Some (True, g')"
    by auto
  have cp: "currentPlayer startGame = BLACK" "opponentOf BLACK = WHITE"
    by (simp_all add: startGame_def opponentOf_def)
  have c0: "discCount (board startGame) (Disc BLACK) = 2"
    "discCount (board startGame) (Disc WHITE) = 2"
    by code_simp+
  from disc_counts_after_move[OF wf mk fl] c0 cp wf fl mk show ?thesis by auto
qed

section \<open>Reachable states and the cache of valid moves\<close>

lemma reachable_startGame: "reachable startGame"
  by (rule reachable.start[OF init_startGame])

lemma playMoves_reachable:
  assumes "reachable g" "playMoves g ms = Some g'"
  shows "reachable g'"
  using assms
proof (induction ms arbitrary: g)
  case Nil
  then show ?case by simp
next
  case (Cons m ms)
  obtain row col where m: "m = (row, col)" by (cases m)
  with Cons.prems(2) obtain g1 where mk: "makeMove g row col = Some (True, g1)"
    and rest: "playMoves g1 ms = Some g'"
    by (auto split: option.splits if_splits)
  from Cons.IH[OF reachable.step[OF Cons.prems(1) mk] rest] show ?case .
qed

lemma reachable_wf:
  assumes "reachable g"
  shows "wf_board (board g)"
  using assms
proof (induction rule: reachable.induct)
  case (start g)
  with init_startGame have "g = startGame" by (metis option.inject)
  then show ?case using wf_startBoard by (simp add: startGame_def)
next
  case (step g row col g')
  from makeMove_wf[OF step.IH step.hyps(2)] show ?case .
qed

text \<open>While the game is not over, the cache holds the legal moves of the player to move,
  and there is at least one.\<close>

lemma reachable_cache:
  assumes "reachable g" "\<not> gameOver g"
  shows "findValidMoves (board g) (currentPlayer g) = Some (validMoves g) \<and> validMoves g \<noteq> []"
  using assms
proof (induction rule: reachable.induct)
  case (start g)
  with init_startGame have g: "g = startGame" by (metis option.inject)
  have "findValidMoves (board startGame) (currentPlayer startGame) = Some (validMoves startGame)"
    by code_simp
  then show ?case by (simp add: g) (simp add: startGame_def)
next
  case (step g row col g')
  from makeMove_True(4)[OF step.hyps(2)] step.prems show ?case
    by (auto split: if_splits)
qed

text \<open>
  C1. That the cached \<open>validMoves\<close> equals \<open>findValidMoves(currentPlayer)\<close> in every
  reachable state, and is empty once \<open>gameOver\<close> is set, does not hold where a game ends: the
  branch of \<open>makeMove\<close> that sets \<open>gameOver\<close> does not touch \<open>validMoves\<close>, unlike its two
  sibling branches. After the nine moves of \<open>shortGame\<close> from a new game the game is over,
  the player to move has no legal move, and the cache still holds the five moves the mover
  had before the last move (one of them the cell just played).
\<close>

theorem cache_stale_at_game_over:
  "\<exists>g. playMoves startGame shortGame = Some g \<and> reachable g \<and> gameOver g \<and>
       validMoves g = [(1, 5), (2, 5), (3, 5), (4, 5), (5, 5)] \<and>
       findValidMoves (board g) (currentPlayer g) = Some []"
proof -
  have ev: "map_option (\<lambda>g. (gameOver g, validMoves g, findValidMoves (board g) (currentPlayer g)))
          (playMoves startGame shortGame)
        = Some (True, [(1, 5), (2, 5), (3, 5), (4, 5), (5, 5)], Some [])"
    by code_simp
  then obtain g where g: "playMoves startGame shortGame = Some g" by auto
  from playMoves_reachable[OF reachable_startGame g] have "reachable g" .
  with ev g show ?thesis by simp
qed

section \<open>The evaluator in closed form\<close>

lemma weightAt_in_bounds:
  assumes "(r, c) \<in> set allCells"
  shows "weightAt r c = Some (weight (r, c))"
proof -
  from assms have b: "0 \<le> r" "r < 8" "0 \<le> c" "c < 8" by (simp_all add: allCells_bounds)
  have "list_all (\<lambda>row. length row = 8) positionWeights" "length positionWeights = 8"
    by (simp_all add: positionWeights_def)
  with b have "length (positionWeights ! nat r) = 8" by (simp add: list_all_length)
  moreover have "specWeights = positionWeights"
    by (simp add: specWeights_def positionWeights_def)
  ultimately show ?thesis
    using b \<open>length positionWeights = 8\<close> by (simp add: weightAt_def weight_def)
qed

lemma positionLoop_wf:
  assumes "wf_board b" "set cs \<subseteq> set allCells"
  shows "positionLoop b p q cs e = Some (e + (\<Sum>m\<leftarrow>cs. sideOf b p q m * weight m))"
  using assms(2)
proof (induction cs arbitrary: e)
  case Nil
  show ?case by simp
next
  case (Cons m cs)
  obtain r c where m: "m = (r, c)" by (cases m)
  with Cons.prems have in_b: "(r, c) \<in> set allCells" by simp
  then obtain x where x: "cellAt b r c = Some x"
    using cellAt_wf[OF assms(1)] by (auto simp: allCells_bounds)
  from Cons have ih: "\<And>e. positionLoop b p q cs e = Some (e + (\<Sum>m\<leftarrow>cs. sideOf b p q m * weight m))"
    by simp
  show ?case using x m by (simp add: ih weightAt_in_bounds[OF in_b] sideOf_def)
qed

lemma bonusLoop_wf:
  assumes "wf_board b" "set cs \<subseteq> set allCells"
  shows "bonusLoop b p q k cs s = Some (s + k * (\<Sum>m\<leftarrow>cs. sideOf b p q m))"
  using assms(2)
proof (induction cs arbitrary: s)
  case Nil
  show ?case by simp
next
  case (Cons m cs)
  obtain r c where m: "m = (r, c)" by (cases m)
  with Cons.prems have in_b: "(r, c) \<in> set allCells" by simp
  then obtain x where x: "cellAt b r c = Some x"
    using cellAt_wf[OF assms(1)] by (auto simp: allCells_bounds)
  from Cons have ih: "\<And>s. bonusLoop b p q k cs s = Some (s + k * (\<Sum>m\<leftarrow>cs. sideOf b p q m))"
    by simp
  show ?case using x m by (simp add: ih sideOf_def algebra_simps)
qed

lemma corners_in_grid: "set corners \<subseteq> set allCells"
  by (auto simp: corners_def allCells_bounds)

lemma edges_in_grid: "set (concat edges) \<subseteq> set allCells"
  by (auto simp: edges_def allCells_bounds)

lemma edges_sum:
  fixes f :: "move \<Rightarrow> int"
  shows "(\<Sum>m\<leftarrow>concat edges. f m) = (\<Sum>m\<leftarrow>borderCells. f m) + (\<Sum>m\<leftarrow>corners. f m)"
  by (simp add: edges_def borderCells_def allCells_def idx8_def corners_def)

lemma corners_spec: "cornerCells = corners"
  by (simp add: corners_def cornerCells_def allCells_def idx8_def)

lemma humanPlayer_opponentOf: "(if p = WHITE then BLACK else WHITE) = opponentOf p"
  by (cases p) (simp_all add: opponentOf_def)

lemma evaluate_value:
  assumes "wf_board (board g)"
  shows "evaluate g p =
     Some (if gameOver g then
             (if winner g = Some p then 10000
              else if winner g = Some (opponentOf p) then - 10000 else 0)
           else
             (int (discCount (board g) (Disc p)) - int (discCount (board g) (Disc (opponentOf p)))) *
               (if discCount (board g) (Disc BLACK) + discCount (board g) (Disc WHITE) > 50
                then 10 else 1)
             + (\<Sum>m\<leftarrow>allCells. sideOf (board g) p (opponentOf p) m * weight m)
             + 5 * (int (length (legalMoves (board g) p)) -
                    int (length (legalMoves (board g) (opponentOf p))))
             + 50 * (\<Sum>m\<leftarrow>cornerCells. sideOf (board g) p (opponentOf p) m)
             + (2 * (\<Sum>m\<leftarrow>borderCells. sideOf (board g) p (opponentOf p) m) +
                2 * (\<Sum>m\<leftarrow>cornerCells. sideOf (board g) p (opponentOf p) m)))"
proof -
  let ?b = "board g" and ?q = "opponentOf p"
  note sc = getScore_wf[OF assms]
  note pl = positionLoop_wf[OF assms subset_refl, of p ?q]
  note fv = findValidMoves_wf[OF assms]
  note co = bonusLoop_wf[OF assms corners_in_grid, of p ?q 50]
  note ed = bonusLoop_wf[OF assms edges_in_grid, of p ?q 2 0]
  have ai: "(if p = WHITE then int (discCount ?b (Disc WHITE)) else int (discCount ?b (Disc BLACK)))
              = int (discCount ?b (Disc p))"
    and hu: "(if p = WHITE then int (discCount ?b (Disc BLACK)) else int (discCount ?b (Disc WHITE)))
              = int (discCount ?b (Disc ?q))"
    by (cases p; simp add: opponentOf_def)+
  show ?thesis
    unfolding evaluate_def evaluateEdges_def humanPlayer_opponentOf
    by (simp add: sc pl fv co ed Let_def ai hu edges_sum legalMoves_def corners_spec
          algebra_simps)
qed

text \<open>
  C4. On a board of eight rows of eight cells, \<open>evaluate\<close> for the perspective \<open>p\<close>, with
  opponent \<open>q\<close>, is: when the game is over, \<open>10000\<close> if \<open>p\<close> is the winner, \<open>-10000\<close> if \<open>q\<close> is,
  \<open>0\<close> on a tie; otherwise the sum of the disc difference times \<open>10\<close> (more than 50 discs) or
  \<open>1\<close>, the weights over the 64 cells (plus for \<open>p\<close>, minus for \<open>q\<close>), five times the
  difference of the numbers of legal moves, \<open>50\<close> per corner, and \<open>2\<close> per border cell where
  the four corners count twice. The weights are those of the fixed table, given in full in
  the second part of the statement.
\<close>

theorem evaluate_closed_form:
  assumes "wf_board (board g)"
  shows "(evaluate g p =
     Some (if gameOver g then
             (if winner g = Some p then 10000
              else if winner g = Some (opponentOf p) then - 10000 else 0)
           else
             (int (discCount (board g) (Disc p)) - int (discCount (board g) (Disc (opponentOf p)))) *
               (if discCount (board g) (Disc BLACK) + discCount (board g) (Disc WHITE) > 50
                then 10 else 1)
             + (\<Sum>m\<leftarrow>allCells. sideOf (board g) p (opponentOf p) m * weight m)
             + 5 * (int (length (legalMoves (board g) p)) -
                    int (length (legalMoves (board g) (opponentOf p))))
             + 50 * (\<Sum>m\<leftarrow>cornerCells. sideOf (board g) p (opponentOf p) m)
             + (2 * (\<Sum>m\<leftarrow>borderCells. sideOf (board g) p (opponentOf p) m) +
                2 * (\<Sum>m\<leftarrow>cornerCells. sideOf (board g) p (opponentOf p) m)))) \<and>
         map (\<lambda>r. map (\<lambda>c. weight (r, c)) [0, 1, 2, 3, 4, 5, 6, 7]) [0, 1, 2, 3, 4, 5, 6, 7] =
           [[100, -20, 10, 5, 5, 10, -20, 100],
            [-20, -50, -2, -2, -2, -2, -50, -20],
            [10, -2, 1, 1, 1, 1, -2, 10],
            [5, -2, 1, 0, 0, 1, -2, 5],
            [5, -2, 1, 0, 0, 1, -2, 5],
            [10, -2, 1, 1, 1, 1, -2, 10],
            [-20, -50, -2, -2, -2, -2, -50, -20],
            [100, -20, 10, 5, 5, 10, -20, 100]]"
proof -
  have "map (\<lambda>r. map (\<lambda>c. weight (r, c)) [0, 1, 2, 3, 4, 5, 6, 7]) [0, 1, 2, 3, 4, 5, 6, 7] =
           [[100, -20, 10, 5, 5, 10, -20, 100],
            [-20, -50, -2, -2, -2, -2, -50, -20],
            [10, -2, 1, 1, 1, 1, -2, 10],
            [5, -2, 1, 0, 0, 1, -2, 5],
            [5, -2, 1, 0, 0, 1, -2, 5],
            [10, -2, 1, 1, 1, 1, -2, 10],
            [-20, -50, -2, -2, -2, -2, -50, -20],
            [100, -20, 10, 5, 5, 10, -20, 100]]"
    by (simp add: weight_def specWeights_def)
  with evaluate_value[OF assms, of p] show ?thesis by blast
qed

theorem evaluate_closed_form_witness:
  "wf_board (board passBefore) \<and> \<not> gameOver passBefore \<and>
   discCount (board passBefore) (Disc WHITE) = 3 \<and>
   discCount (board passBefore) (Disc BLACK) = 2 \<and>
   (\<Sum>m\<leftarrow>allCells. sideOf (board passBefore) WHITE BLACK m * weight m) = - 230 \<and>
   legalMoves (board passBefore) WHITE = [] \<and>
   legalMoves (board passBefore) BLACK = [(0, 2), (7, 3)] \<and>
   (\<Sum>m\<leftarrow>cornerCells. sideOf (board passBefore) WHITE BLACK m) = - 2 \<and>
   (\<Sum>m\<leftarrow>borderCells. sideOf (board passBefore) WHITE BLACK m) = 1 \<and>
   evaluate passBefore WHITE = Some (- 341) \<and>
   evaluate passBefore BLACK = Some 341 \<and>
   evaluate (passBefore\<lparr>gameOver := True, winner := Some WHITE\<rparr>) WHITE = Some 10000 \<and>
   evaluate (passBefore\<lparr>gameOver := True, winner := Some WHITE\<rparr>) BLACK = Some (- 10000) \<and>
   evaluate (passBefore\<lparr>gameOver := True, winner := None\<rparr>) BLACK = Some 0"
proof -
  have opp: "opponentOf BLACK = WHITE" "opponentOf WHITE = BLACK"
    by (simp_all add: opponentOf_def)
  have wf: "wf_board (board passBefore)" by (simp add: passBefore_def wf_board_def)
  have no: "\<not> gameOver passBefore" by (simp add: passBefore_def)
  have dw: "discCount (board passBefore) (Disc WHITE) = 3"
    and db: "discCount (board passBefore) (Disc BLACK) = 2"
    by code_simp+
  have pw: "(\<Sum>m\<leftarrow>allCells. sideOf (board passBefore) WHITE BLACK m * weight m) = - 230"
    and pb: "(\<Sum>m\<leftarrow>allCells. sideOf (board passBefore) BLACK WHITE m * weight m) = 230"
    by code_simp+
  have lw: "legalMoves (board passBefore) WHITE = []"
    and lb: "legalMoves (board passBefore) BLACK = [(0, 2), (7, 3)]"
    by code_simp+
  have cw: "(\<Sum>m\<leftarrow>cornerCells. sideOf (board passBefore) WHITE BLACK m) = - 2"
    and cb: "(\<Sum>m\<leftarrow>cornerCells. sideOf (board passBefore) BLACK WHITE m) = 2"
    by code_simp+
  have bw: "(\<Sum>m\<leftarrow>borderCells. sideOf (board passBefore) WHITE BLACK m) = 1"
    and bb: "(\<Sum>m\<leftarrow>borderCells. sideOf (board passBefore) BLACK WHITE m) = - 1"
    by code_simp+
  have run: "evaluate passBefore WHITE = Some (- 341)" "evaluate passBefore BLACK = Some 341"
    by code_simp+
  from conjunct1[OF evaluate_closed_form[OF wf, of WHITE]]
  have e1: "evaluate passBefore WHITE = Some (- 341)"
    by (simp add: opp no dw db pw lw lb cw bw)
  from conjunct1[OF evaluate_closed_form[OF wf, of BLACK]]
  have e2: "evaluate passBefore BLACK = Some 341"
    by (simp add: opp no dw db pb lw lb cb bb)
  have wf': "\<And>w. wf_board (board (passBefore\<lparr>gameOver := True, winner := w\<rparr>))"
    using wf by simp
  from conjunct1[OF evaluate_closed_form[OF wf', of "Some WHITE" WHITE]]
  have e3: "evaluate (passBefore\<lparr>gameOver := True, winner := Some WHITE\<rparr>) WHITE = Some 10000"
    by simp
  from conjunct1[OF evaluate_closed_form[OF wf', of "Some WHITE" BLACK]]
  have e4: "evaluate (passBefore\<lparr>gameOver := True, winner := Some WHITE\<rparr>) BLACK = Some (- 10000)"
    by (simp add: opp)
  from conjunct1[OF evaluate_closed_form[OF wf', of None BLACK]]
  have e5: "evaluate (passBefore\<lparr>gameOver := True, winner := None\<rparr>) BLACK = Some 0"
    by simp
  from wf no dw db pw lw lb cw bw run e1 e2 e3 e4 e5 show ?thesis by simp
qed

lemma evaluate_wf:
  assumes "wf_board (board g)"
  shows "\<exists>v. evaluate g p = Some v"
  using evaluate_value[OF assms] by blast

section \<open>Clones, and a search that meets a pass\<close>

lemma clone_fields [simp]:
  "board (clone g) = board g" "currentPlayer (clone g) = currentPlayer g"
  "gameOver (clone g) = gameOver g" "winner (clone g) = winner g"
  "validMoves (clone g) = validMoves g"
  by (simp_all add: clone_def)

lemma wf_game_clone: "wf_game (clone g) = wf_game g"
  by (simp add: wf_game_def)

lemma evaluate_clone: "evaluate (clone g) p = evaluate g p"
  by (simp only: evaluate_def clone_fields)

lemma findValidMoves_in_grid:
  assumes "wf_board b" "findValidMoves b p = Some ms"
  shows "list_all (\<lambda>m. m \<in> set allCells) ms"
  using assms(2) unfolding findValidMoves_wf[OF assms(1)]
  by (auto simp: list_all_iff)

lemma makeMove_wf_game:
  assumes "wf_game g" "makeMove g row col = Some (ok, g')"
  shows "wf_game g'"
proof (cases ok)
  case False
  with assms(2) have "makeMove g row col = Some (False, g')" by simp
  from makeMove_False(1)[OF this] assms(1) show ?thesis by simp
next
  case True
  with assms(2) have mk: "makeMove g row col = Some (True, g')" by simp
  from assms(1) have wf: "wf_board (board g)" by (simp add: wf_game_def)
  from makeMove_wf[OF wf mk] have wf': "wf_board (board g')" .
  from makeMove_True(4)[OF mk] obtain om where
    om: "findValidMoves (board g') (opponentOf (currentPlayer g)) = Some om"
    and rest: "if om \<noteq> [] then validMoves g' = om
       else \<exists>cm. findValidMoves (board g') (currentPlayer g) = Some cm \<and>
              (if cm \<noteq> [] then validMoves g' = cm else validMoves g' = validMoves g)"
    by (auto split: if_splits)
  have "list_all (\<lambda>m. m \<in> set allCells) (validMoves g')"
  proof (cases "om \<noteq> []")
    case True
    with rest findValidMoves_in_grid[OF wf' om] show ?thesis by simp
  next
    case False
    with rest obtain cm where cm: "findValidMoves (board g') (currentPlayer g) = Some cm"
      and r: "if cm \<noteq> [] then validMoves g' = cm else validMoves g' = validMoves g" by auto
    show ?thesis
    proof (cases "cm \<noteq> []")
      case True
      with r findValidMoves_in_grid[OF wf' cm] show ?thesis by simp
    next
      case False
      with r assms(1) show ?thesis by (simp add: wf_game_def)
    qed
  qed
  with wf' show ?thesis by (simp add: wf_game_def)
qed

lemma makeMove_clone_defined:
  assumes "wf_game g" "m \<in> set allCells"
  shows "\<exists>ok g'. makeMove (clone g) (fst m) (snd m) = Some (ok, g') \<and> wf_game g'"
proof -
  from assms(2) have b: "0 \<le> fst m" "fst m < 8" "0 \<le> snd m" "snd m < 8"
    using allCells_bounds[of "fst m" "snd m"] by simp_all
  from assms(1) have "wf_board (board (clone g))" by (simp add: wf_game_def)
  from makeMove_defined[OF this b] obtain ok g' where
    mk: "makeMove (clone g) (fst m) (snd m) = Some (ok, g')" by blast
  from makeMove_wf_game[OF _ mk] assms(1) have "wf_game g'" by (simp add: wf_game_clone)
  with mk show ?thesis by blast
qed

text \<open>A state without legal moves: every cached move fails and leaves the clone as it is.\<close>

lemma makeMove_clone_stuck:
  assumes "wf_game g" "m \<in> set allCells" "\<not> gameOver g"
    "findValidMoves (board g) (currentPlayer g) = Some []"
  shows "makeMove (clone g) (fst m) (snd m) = Some (False, clone g)"
proof -
  from assms(1) have wf: "wf_board (board g)" by (simp add: wf_game_def)
  from assms(2) have b: "0 \<le> fst m" "fst m < 8" "0 \<le> snd m" "snd m < 8"
    using allCells_bounds[of "fst m" "snd m"] by simp_all
  from isValidMove_wf[OF wf b] obtain v where
    v: "isValidMove (board g) (fst m) (snd m) (currentPlayer g) = Some v" by blast
  from assms(4) have "filter (\<lambda>(r, c). isValidMove (board g) r c (currentPlayer g) = Some True) allCells = []"
    unfolding findValidMoves_wf[OF wf] by simp
  with assms(2) have "isValidMove (board g) (fst m) (snd m) (currentPlayer g) \<noteq> Some True"
    by (auto simp: filter_empty_conv)
  with v have "isValidMove (board g) (fst m) (snd m) (currentPlayer g) = Some False" by auto
  with assms(3) show ?thesis by (simp add: makeMove_def)
qed

lemma stuck_maxLoop:
  assumes "\<And>m a b. m \<in> set ms \<Longrightarrow> makeMove (clone g) (fst m) (snd m) = Some (False, clone g)"
    "\<And>a b. minimax (clone g) d a b False ai = Some (Fin v)"
    "ms \<noteq> [] \<or> maxScore = Fin v" "maxScore = NegInf \<or> maxScore = Fin v"
  shows "maxLoop g d ai ms maxScore alpha beta = Some (Fin v)"
  using assms(1,3,4)
proof (induction ms arbitrary: maxScore alpha)
  case Nil
  then show ?case by simp
next
  case (Cons m ms)
  from Cons.prems(3) have mx: "max maxScore (Fin v) = Fin v" by (auto simp: max_def)
  from Cons.prems(1)[of m] have mk: "makeMove (clone g) (fst m) (snd m) = Some (False, clone g)"
    by simp
  have "maxLoop g d ai ms (Fin v) (max alpha (Fin v)) beta = Some (Fin v)"
    by (rule Cons.IH) (use Cons.prems(1) in auto)
  then show ?case by (simp add: mk assms(2) mx)
qed

lemma stuck_minLoop:
  assumes "\<And>m a b. m \<in> set ms \<Longrightarrow> makeMove (clone g) (fst m) (snd m) = Some (False, clone g)"
    "\<And>a b. minimax (clone g) d a b True ai = Some (Fin v)"
    "ms \<noteq> [] \<or> minScore = Fin v" "minScore = PosInf \<or> minScore = Fin v"
  shows "minLoop g d ai ms minScore alpha beta = Some (Fin v)"
  using assms(1,3,4)
proof (induction ms arbitrary: minScore beta)
  case Nil
  then show ?case by simp
next
  case (Cons m ms)
  from Cons.prems(3) have mx: "min minScore (Fin v) = Fin v" by (auto simp: min_def)
  from Cons.prems(1)[of m] have mk: "makeMove (clone g) (fst m) (snd m) = Some (False, clone g)"
    by simp
  have "minLoop g d ai ms (Fin v) alpha (min beta (Fin v)) = Some (Fin v)"
    by (rule Cons.IH) (use Cons.prems(1) in auto)
  then show ?case by (simp add: mk assms(2) mx)
qed

lemma stuck_minimax:
  assumes "wf_game g" "\<not> gameOver g" "findValidMoves (board g) (currentPlayer g) = Some []"
    "evaluate g ai = Some v"
  shows "minimax g depth alpha beta isMax ai = Some (Fin v)"
  using assms
proof (induction depth arbitrary: g alpha beta isMax)
  case 0
  then show ?case by (simp add: minimax.simps)
next
  case (Suc d)
  show ?case
  proof (cases "validMoves g = []")
    case True
    with Suc.prems show ?thesis by (simp add: minimax.simps)
  next
    case False
    have stuck: "\<And>m. m \<in> set (validMoves g) \<Longrightarrow>
        makeMove (clone g) (fst m) (snd m) = Some (False, clone g)"
      using makeMove_clone_stuck[OF Suc.prems(1) _ Suc.prems(2,3)] Suc.prems(1)
      by (auto simp: wf_game_def list_all_iff)
    have child: "\<And>a b m. minimax (clone g) d a b m ai = Some (Fin v)"
      by (rule Suc.IH) (use Suc.prems in \<open>simp_all add: wf_game_clone evaluate_clone\<close>)
    show ?thesis
    proof (cases isMax)
      case True
      with False Suc.prems(2) stuck_maxLoop[of "validMoves g" g d ai v NegInf alpha beta] stuck child
      show ?thesis by (simp add: minimax.simps)
    next
      case f: False
      with False Suc.prems(2) stuck_minLoop[of "validMoves g" g d ai v PosInf alpha beta] stuck child
      show ?thesis by (simp add: minimax.simps)
    qed
  qed
qed

text \<open>
  C8. For a state that is not over, whose board has eight rows of eight cells, whose cached
  moves are cells of the grid and whose player to move has no legal move, \<open>minimax\<close> with a
  depth above 0 returns \<open>evaluate\<close> of that very state for the perspective \<open>aiPlayer\<close>,
  whatever \<open>alpha\<close>, \<open>beta\<close> and \<open>isMaximizing\<close> are: no continuation of the passing side
  enters the result.
\<close>

theorem minimax_forced_pass:
  assumes "wf_game g" "\<not> gameOver g" "0 < depth"
    "findValidMoves (board g) (currentPlayer g) = Some []"
  shows "\<exists>v. evaluate g aiPlayer = Some v \<and>
           minimax g depth alpha beta isMaximizing aiPlayer = Some (Fin v)"
proof -
  from assms(1) have "wf_board (board g)" by (simp add: wf_game_def)
  from evaluate_wf[OF this] obtain v where v: "evaluate g aiPlayer = Some v" by blast
  from stuck_minimax[OF assms(1,2,4) v] v show ?thesis by blast
qed

theorem minimax_forced_pass_witness:
  "wf_game passGame \<and> \<not> gameOver passGame \<and> (0::nat) < 3 \<and>
   findValidMoves (board passGame) (currentPlayer passGame) = Some [] \<and>
   findValidMoves (board passGame) WHITE = Some [(0, 2)] \<and>
   evaluate passGame WHITE = Some 177 \<and>
   minimax passGame 3 NegInf PosInf True WHITE = Some (Fin 177)"
proof -
  have wf: "wf_game passGame"
    by (simp add: wf_game_def wf_board_def passGame_def)
  have no: "\<not> gameOver passGame" by (simp add: passGame_def)
  have fv: "findValidMoves (board passGame) (currentPlayer passGame) = Some []"
    by code_simp
  have fw: "findValidMoves (board passGame) WHITE = Some [(0, 2)]"
    by code_simp
  have ev: "evaluate passGame WHITE = Some 177"
    by code_simp
  from minimax_forced_pass[OF wf no _ fv, of 3 WHITE NegInf PosInf True] ev
  have "minimax passGame 3 NegInf PosInf True WHITE = Some (Fin 177)" by simp
  with wf no fv fw ev show ?thesis by simp
qed

section \<open>Pruning against the full search\<close>

lemma NegInf_least [simp]: "NegInf \<le> (x::number)" by simp
lemma PosInf_greatest [simp]: "(x::number) \<le> PosInf" by (cases x) simp_all
lemma max_NegInf [simp]: "max NegInf (x::number) = x" by (simp add: max_def)
lemma min_PosInf [simp]: "min PosInf (x::number) = x" by (simp add: min_def) (cases x; simp)

lemma win_max_nil: "a < b \<Longrightarrow> ms \<le> a \<Longrightarrow> inWindow a b NegInf ms"
  by (auto simp: inWindow_def)

lemma win_min_nil: "a < b \<Longrightarrow> b \<le> ms \<Longrightarrow> inWindow a b PosInf ms"
  by (auto simp: inWindow_def)

lemma win_max_cut:
  "a < b \<Longrightarrow> ms \<le> a \<Longrightarrow> inWindow a b x s \<Longrightarrow> b \<le> max a s \<Longrightarrow>
   inWindow a b (max x V) (max ms s)"
  by (auto simp: inWindow_def max_def split: if_splits)

lemma win_max_step:
  "a < b \<Longrightarrow> ms \<le> a \<Longrightarrow> inWindow a b x s \<Longrightarrow> \<not> b \<le> max a s \<Longrightarrow>
   inWindow (max a s) b V ab \<Longrightarrow> max ms s \<le> ab \<Longrightarrow> inWindow a b (max x V) ab"
  by (auto simp: inWindow_def max_def split: if_splits)

lemma win_min_cut:
  "a < b \<Longrightarrow> b \<le> ms \<Longrightarrow> inWindow a b x s \<Longrightarrow> min b s \<le> a \<Longrightarrow>
   inWindow a b (min x V) (min ms s)"
  by (auto simp: inWindow_def min_def split: if_splits)

lemma win_min_step:
  "a < b \<Longrightarrow> b \<le> ms \<Longrightarrow> inWindow a b x s \<Longrightarrow> \<not> min b s \<le> a \<Longrightarrow>
   inWindow a (min b s) V ab \<Longrightarrow> ab \<le> min ms s \<Longrightarrow> inWindow a b (min x V) ab"
  by (auto simp: inWindow_def min_def split: if_splits)

lemma win_full: "inWindow NegInf PosInf v ab \<Longrightarrow> ab = v"
  by (cases ab; cases v) (auto simp: inWindow_def less_number_def)


lemma fullMaxLoop_acc:
  "fullMaxLoop g d ai ms acc = map_option (max acc) (fullMaxLoop g d ai ms NegInf)"
proof (induction ms arbitrary: acc)
  case Nil
  show ?case by simp
next
  case (Cons m ms)
  show ?case
  proof (cases "makeMove (clone g) (fst m) (snd m)")
    case None
    then show ?thesis by simp
  next
    case (Some res)
    obtain ok gc where res: "res = (ok, gc)" by (cases res)
    show ?thesis
    proof (cases "fullMinimax gc d False ai")
      case None
      with Some res show ?thesis by simp
    next
      case s: (Some s)
      have "fullMaxLoop g d ai ms (max acc s) = map_option (max (max acc s)) (fullMaxLoop g d ai ms NegInf)"
        by (rule Cons.IH)
      moreover have "fullMaxLoop g d ai ms s = map_option (max s) (fullMaxLoop g d ai ms NegInf)"
        by (rule Cons.IH)
      ultimately show ?thesis
        using Some res s by (cases "fullMaxLoop g d ai ms NegInf") (simp_all add: max.assoc)
    qed
  qed
qed

lemma fullMinLoop_acc:
  "fullMinLoop g d ai ms acc = map_option (min acc) (fullMinLoop g d ai ms PosInf)"
proof (induction ms arbitrary: acc)
  case Nil
  show ?case by simp
next
  case (Cons m ms)
  show ?case
  proof (cases "makeMove (clone g) (fst m) (snd m)")
    case None
    then show ?thesis by simp
  next
    case (Some res)
    obtain ok gc where res: "res = (ok, gc)" by (cases res)
    show ?thesis
    proof (cases "fullMinimax gc d True ai")
      case None
      with Some res show ?thesis by simp
    next
      case s: (Some s)
      have "fullMinLoop g d ai ms (min acc s) = map_option (min (min acc s)) (fullMinLoop g d ai ms PosInf)"
        by (rule Cons.IH)
      moreover have "fullMinLoop g d ai ms s = map_option (min s) (fullMinLoop g d ai ms PosInf)"
        by (rule Cons.IH)
      ultimately show ?thesis
        using Some res s by (cases "fullMinLoop g d ai ms PosInf") (simp_all add: min.assoc)
    qed
  qed
qed

lemma full_total:
  shows "wf_game g \<Longrightarrow> \<exists>v. fullMinimax g depth isMax ai = Some v"
    and "wf_game g \<Longrightarrow> list_all (\<lambda>m. m \<in> set allCells) ms \<Longrightarrow>
           \<exists>v. fullMaxLoop g d ai ms acc = Some v"
    and "wf_game g \<Longrightarrow> list_all (\<lambda>m. m \<in> set allCells) ms \<Longrightarrow>
           \<exists>v. fullMinLoop g d ai ms acc = Some v"
proof (induction g depth isMax ai and g d ai ms acc and g d ai ms acc
       rule: fullMinimax_fullMaxLoop_fullMinLoop.induct)
  case (1 g depth isMaximizing aiPlayer)
  from "1.prems" have wfb: "wf_board (board g)" and grid: "list_all (\<lambda>m. m \<in> set allCells) (validMoves g)"
    by (simp_all add: wf_game_def)
  from evaluate_wf[OF wfb] obtain e where e: "evaluate g aiPlayer = Some e" by blast
  show ?case
  proof (cases "depth = 0 \<or> gameOver g \<or> length (validMoves g) = 0")
    case True
    with e show ?thesis by (subst fullMinimax.simps) auto
  next
    case False
    then have c: "\<not> (depth = 0 \<or> gameOver g)" "length (validMoves g) \<noteq> 0" by auto
    show ?thesis
    proof (cases isMaximizing)
      case True
      from "1.IH"(1)[OF c True "1.prems" grid] c True show ?thesis
        by (subst fullMinimax.simps) simp
    next
      case f: False
      from "1.IH"(2)[OF c f "1.prems" grid] c f show ?thesis
        by (subst fullMinimax.simps) simp
    qed
  qed
next
  case (2 g d aiPlayer maxScore)
  show ?case by simp
next
  case (3 g d aiPlayer m ms maxScore)
  from "3.prems"(2) have m: "m \<in> set allCells" and ms: "list_all (\<lambda>m. m \<in> set allCells) ms"
    by simp_all
  from makeMove_clone_defined[OF "3.prems"(1) m] obtain ok gc where
    mk: "makeMove (clone g) (fst m) (snd m) = Some (ok, gc)" and wf': "wf_game gc" by blast
  from "3.IH"(1)[OF mk refl wf'] obtain s where s: "fullMinimax gc d False aiPlayer = Some s"
    by blast
  from "3.IH"(2)[OF mk refl s "3.prems"(1) ms] mk s show ?case by simp
next
  case (4 g d aiPlayer minScore)
  show ?case by simp
next
  case (5 g d aiPlayer m ms minScore)
  from "5.prems"(2) have m: "m \<in> set allCells" and ms: "list_all (\<lambda>m. m \<in> set allCells) ms"
    by simp_all
  from makeMove_clone_defined[OF "5.prems"(1) m] obtain ok gc where
    mk: "makeMove (clone g) (fst m) (snd m) = Some (ok, gc)" and wf': "wf_game gc" by blast
  from "5.IH"(1)[OF mk refl wf'] obtain s where s: "fullMinimax gc d True aiPlayer = Some s"
    by blast
  from "5.IH"(2)[OF mk refl s "5.prems"(1) ms] mk s show ?case by simp
qed


text \<open>The pruned search against the full one, for a window \<open>alpha < beta\<close>.\<close>

lemma pruned_in_window:
  shows "wf_game g \<Longrightarrow> alpha < beta \<Longrightarrow>
           \<exists>ab v. minimax g depth alpha beta isMax ai = Some ab \<and>
                  fullMinimax g depth isMax ai = Some v \<and> inWindow alpha beta v ab"
    and "wf_game g \<Longrightarrow> list_all (\<lambda>m. m \<in> set allCells) ms \<Longrightarrow> maxScore \<le> alpha \<Longrightarrow>
         alpha < beta \<Longrightarrow>
           \<exists>ab v. maxLoop g d ai ms maxScore alpha beta = Some ab \<and>
                  fullMaxLoop g d ai ms NegInf = Some v \<and> inWindow alpha beta v ab \<and>
                  maxScore \<le> ab"
    and "wf_game g \<Longrightarrow> list_all (\<lambda>m. m \<in> set allCells) ms \<Longrightarrow> beta \<le> minScore \<Longrightarrow>
         alpha < beta \<Longrightarrow>
           \<exists>ab v. minLoop g d ai ms minScore alpha beta = Some ab \<and>
                  fullMinLoop g d ai ms PosInf = Some v \<and> inWindow alpha beta v ab \<and>
                  ab \<le> minScore"
proof (induction g depth alpha beta isMax ai and g d ai ms maxScore alpha beta
         and g d ai ms minScore alpha beta rule: minimax_maxLoop_minLoop.induct)
  case (1 g depth alpha beta isMaximizing aiPlayer)
  from "1.prems" have wfb: "wf_board (board g)"
    and grid: "list_all (\<lambda>m. m \<in> set allCells) (validMoves g)"
    by (simp_all add: wf_game_def)
  from evaluate_wf[OF wfb] obtain e where e: "evaluate g aiPlayer = Some e" by blast
  show ?case
  proof (cases "depth = 0 \<or> gameOver g \<or> length (validMoves g) = 0")
    case True
    with e have "minimax g depth alpha beta isMaximizing aiPlayer = Some (Fin e)"
      "fullMinimax g depth isMaximizing aiPlayer = Some (Fin e)"
      by (subst minimax.simps fullMinimax.simps, auto)+
    then show ?thesis by (auto simp: inWindow_def)
  next
    case False
    then have c: "\<not> (depth = 0 \<or> gameOver g)" "length (validMoves g) \<noteq> 0" by auto
    show ?thesis
    proof (cases isMaximizing)
      case True
      from "1.IH"(1)[OF c True "1.prems"(1) grid _ "1.prems"(2)]
      obtain ab v where "maxLoop g (depth - 1) aiPlayer (validMoves g) NegInf alpha beta = Some ab"
        "fullMaxLoop g (depth - 1) aiPlayer (validMoves g) NegInf = Some v" "inWindow alpha beta v ab"
        by auto
      with c True show ?thesis
        by (subst minimax.simps, subst fullMinimax.simps) simp
    next
      case f: False
      from "1.IH"(2)[OF c f "1.prems"(1) grid _ "1.prems"(2)]
      obtain ab v where "minLoop g (depth - 1) aiPlayer (validMoves g) PosInf alpha beta = Some ab"
        "fullMinLoop g (depth - 1) aiPlayer (validMoves g) PosInf = Some v" "inWindow alpha beta v ab"
        by auto
      with c f show ?thesis
        by (subst minimax.simps, subst fullMinimax.simps) simp
    qed
  qed
next
  case (2 g d aiPlayer maxScore alpha beta)
  then show ?case by (simp add: win_max_nil)
next
  case (3 g d aiPlayer m ms maxScore alpha beta)
  from "3.prems"(2) have m: "m \<in> set allCells" and ms: "list_all (\<lambda>m. m \<in> set allCells) ms"
    by simp_all
  from makeMove_clone_defined[OF "3.prems"(1) m] obtain ok gc where
    mk: "makeMove (clone g) (fst m) (snd m) = Some (ok, gc)" and wf': "wf_game gc" by blast
  from "3.IH"(1)[OF mk refl wf' "3.prems"(4)] obtain s x where
    s: "minimax gc d alpha beta False aiPlayer = Some s"
    and x: "fullMinimax gc d False aiPlayer = Some x" and w: "inWindow alpha beta x s" by blast
  from full_total(2)[OF "3.prems"(1) ms] obtain V where
    V: "fullMaxLoop g d aiPlayer ms NegInf = Some V" by blast
  have full: "fullMaxLoop g d aiPlayer (m # ms) NegInf = Some (max x V)"
    using mk x V fullMaxLoop_acc[of g d aiPlayer ms x] by simp
  show ?case
  proof (cases "beta \<le> max alpha s")
    case True
    then have "maxLoop g d aiPlayer (m # ms) maxScore alpha beta = Some (max maxScore s)"
      using mk s by simp
    moreover from win_max_cut[OF "3.prems"(4,3) w True]
    have "inWindow alpha beta (max x V) (max maxScore s)" .
    ultimately show ?thesis using full by simp
  next
    case False
    have inv: "max maxScore s \<le> max alpha s" using "3.prems"(3) by (auto simp: max_def)
    from False have lt: "max alpha s < beta" by (simp only: not_le)
    from "3.IH"(2)[OF mk refl s False "3.prems"(1) ms inv lt] V obtain ab where
      ab: "maxLoop g d aiPlayer ms (max maxScore s) (max alpha s) beta = Some ab"
      and w2: "inWindow (max alpha s) beta V ab" and ge: "max maxScore s \<le> ab" by auto
    from win_max_step[OF "3.prems"(4,3) w False w2 ge]
    have "inWindow alpha beta (max x V) ab" .
    moreover have "maxLoop g d aiPlayer (m # ms) maxScore alpha beta = Some ab"
      using mk s False ab by simp
    moreover from ge have "maxScore \<le> ab" by simp
    ultimately show ?thesis using full by simp
  qed
next
  case (4 g d aiPlayer minScore alpha beta)
  then show ?case by (simp add: win_min_nil)
next
  case (5 g d aiPlayer m ms minScore alpha beta)
  from "5.prems"(2) have m: "m \<in> set allCells" and ms: "list_all (\<lambda>m. m \<in> set allCells) ms"
    by simp_all
  from makeMove_clone_defined[OF "5.prems"(1) m] obtain ok gc where
    mk: "makeMove (clone g) (fst m) (snd m) = Some (ok, gc)" and wf': "wf_game gc" by blast
  from "5.IH"(1)[OF mk refl wf' "5.prems"(4)] obtain s x where
    s: "minimax gc d alpha beta True aiPlayer = Some s"
    and x: "fullMinimax gc d True aiPlayer = Some x" and w: "inWindow alpha beta x s" by blast
  from full_total(3)[OF "5.prems"(1) ms] obtain V where
    V: "fullMinLoop g d aiPlayer ms PosInf = Some V" by blast
  have full: "fullMinLoop g d aiPlayer (m # ms) PosInf = Some (min x V)"
    using mk x V fullMinLoop_acc[of g d aiPlayer ms x] by simp
  show ?case
  proof (cases "min beta s \<le> alpha")
    case True
    then have "minLoop g d aiPlayer (m # ms) minScore alpha beta = Some (min minScore s)"
      using mk s by simp
    moreover from win_min_cut[OF "5.prems"(4,3) w True]
    have "inWindow alpha beta (min x V) (min minScore s)" .
    ultimately show ?thesis using full by simp
  next
    case False
    have inv: "min beta s \<le> min minScore s" using "5.prems"(3) by (auto simp: min_def)
    from False have lt: "alpha < min beta s" by (simp only: not_le)
    from "5.IH"(2)[OF mk refl s False "5.prems"(1) ms inv lt] V obtain ab where
      ab: "minLoop g d aiPlayer ms (min minScore s) alpha (min beta s) = Some ab"
      and w2: "inWindow alpha (min beta s) V ab" and le: "ab \<le> min minScore s" by auto
    from win_min_step[OF "5.prems"(4,3) w False w2 le]
    have "inWindow alpha beta (min x V) ab" .
    moreover have "minLoop g d aiPlayer (m # ms) minScore alpha beta = Some ab"
      using mk s False ab by simp
    moreover from le have "ab \<le> minScore" by simp
    ultimately show ?thesis using full by simp
  qed
qed

lemma pruned_exact:
  assumes "wf_game g"
  shows "\<exists>v. minimax g depth NegInf PosInf isMax ai = Some v \<and>
             fullMinimax g depth isMax ai = Some v"
proof -
  have "NegInf < PosInf" by (simp add: less_number_def)
  from pruned_in_window(1)[OF assms this] win_full show ?thesis by blast
qed

lemma rootLoop_full:
  assumes "wf_game g" "list_all (\<lambda>m. m \<in> set allCells) ms"
  shows "\<exists>r. rootLoop depth g ms bestMove bestScore = Some r \<and>
             fullRootLoop depth g ms bestMove bestScore = Some r"
  using assms(2)
proof (induction ms arbitrary: bestMove bestScore)
  case Nil
  show ?case by simp
next
  case (Cons m ms)
  then have m: "m \<in> set allCells" and ms: "list_all (\<lambda>m. m \<in> set allCells) ms" by simp_all
  from makeMove_clone_defined[OF assms(1) m] obtain ok gc where
    mk: "makeMove (clone g) (fst m) (snd m) = Some (ok, gc)" and wf': "wf_game gc" by blast
  from pruned_exact[OF wf'] obtain s where
    s: "minimax gc (depth - 1) NegInf PosInf False WHITE = Some s"
       "fullMinimax gc (depth - 1) False WHITE = Some s" by blast
  from Cons.IH[OF ms] mk s show ?case by simp
qed

text \<open>
  C3. For every state whose board has eight rows of eight cells and whose cached moves are
  cells of the grid, and every depth of at least 1, the loop of \<open>getMove\<close> over the candidates
  ends with the same best move and the same best score as the loop of the full-width search,
  \<open>getMove\<close> returns what the full-width \<open>getMove\<close> returns, and \<open>minimax\<close> with the window
  from minus to plus infinity returns the value of the full-width \<open>minimax\<close>.
\<close>

theorem pruning_preserves_choice:
  assumes "wf_game g" "0 < depth"
  shows "(\<exists>best. rootLoop depth g (validMoves g) (validMoves g ! 0) NegInf = Some best \<and>
                  fullRootLoop depth g (validMoves g) (validMoves g ! 0) NegInf = Some best) \<and>
         (\<exists>r. getMove depth g = Some r \<and> fullGetMove depth g = Some r) \<and>
         (\<exists>v. minimax g depth NegInf PosInf isMaximizing aiPlayer = Some v \<and>
               fullMinimax g depth isMaximizing aiPlayer = Some v)"
proof -
  from assms(1) have grid: "list_all (\<lambda>m. m \<in> set allCells) (validMoves g)"
    by (simp add: wf_game_def)
  from rootLoop_full[OF assms(1) grid, of depth "validMoves g ! 0" NegInf]
  obtain best where best: "rootLoop depth g (validMoves g) (validMoves g ! 0) NegInf = Some best"
    "fullRootLoop depth g (validMoves g) (validMoves g ! 0) NegInf = Some best" by blast
  then have "\<exists>r. getMove depth g = Some r \<and> fullGetMove depth g = Some r"
    by (auto simp: getMove_def fullGetMove_def)
  with best pruned_exact[OF assms(1), of depth isMaximizing aiPlayer] show ?thesis by blast
qed

theorem pruning_preserves_choice_witness:
  "wf_game startGame \<and> (0::nat) < 3 \<and>
   (\<exists>best. rootLoop 3 startGame (validMoves startGame) (validMoves startGame ! 0) NegInf = Some best \<and>
           fullRootLoop 3 startGame (validMoves startGame) (validMoves startGame ! 0) NegInf = Some best) \<and>
   (\<exists>r. getMove 3 startGame = Some r \<and> fullGetMove 3 startGame = Some r) \<and>
   (\<exists>v. minimax startGame 3 NegInf PosInf True WHITE = Some v \<and>
         fullMinimax startGame 3 True WHITE = Some v)"
proof -
  have wf: "wf_game startGame"
    by (simp add: wf_game_def startGame_def wf_startBoard allCells_bounds)
  have d: "(0::nat) < 3" by simp
  from pruning_preserves_choice[OF wf d, of True WHITE] wf show ?thesis by simp
qed









section \<open>Clones share no row array with their source\<close>

lemma loadBoard_Some:
  "loadBoard st refs = Some b \<longleftrightarrow> list_all (\<lambda>a. a < length st) refs \<and> b = map (\<lambda>a. st ! a) refs"
  by (auto simp: loadBoard_def)

lemma storeRows_frame:
  assumes "storeRows st refs rows = Some st'"
  shows "length st' = length st \<and> (\<forall>a. a \<notin> set refs \<longrightarrow> st' ! a = st ! a)"
  using assms
proof (induction st refs rows rule: storeRows.induct)
  case (2 st a refs row rows)
  then have rec: "storeRows (st[a := row]) refs rows = Some st'" and a: "a < length st"
    by (auto split: if_splits)
  from "2.IH"[OF a rec] show ?case by auto
qed simp_all

lemma loadBoard_frame:
  assumes "length st' = length st" "\<forall>a \<in> set refs. st' ! a = st ! a"
  shows "loadBoard st' refs = loadBoard st refs"
  using assms by (auto simp: loadBoard_def)

text \<open>A move on one object leaves the view of an object with other row arrays alone.\<close>

lemma makeMoveS_frame:
  assumes "makeMoveS st obj row col = Some (ok, st', obj')"
    "set (rowRefs other) \<inter> set (rowRefs obj) = {}"
  shows "view st' other = view st other" and "rowRefs obj' = rowRefs obj"
proof -
  from assms(1) obtain g g' where "view st obj = Some g" "makeMove g row col = Some (ok, g')"
    and sr: "storeRows st (rowRefs obj) (board g') = Some st'"
    and o': "obj' = obj\<lparr>scalars := g'\<lparr>board := []\<rparr>\<rparr>"
    by (auto simp: makeMoveS_def split: bind_splits)
  from storeRows_frame[OF sr] assms(2)
  have "length st' = length st" "\<forall>a \<in> set (rowRefs other). st' ! a = st ! a" by auto
  from loadBoard_frame[OF this] show "view st' other = view st other" by (simp add: view_def)
  from o' show "rowRefs obj' = rowRefs obj" by simp
qed

lemma playS_frame:
  assumes "playS st obj ms = Some (st', obj')"
    "set (rowRefs other) \<inter> set (rowRefs obj) = {}"
  shows "view st' other = view st other"
  using assms
proof (induction ms arbitrary: st obj)
  case Nil
  then show ?case by simp
next
  case (Cons m ms)
  obtain row col where m: "m = (row, col)" by (cases m)
  with Cons.prems(1) obtain ok st1 obj1 where
    mk: "makeMoveS st obj row col = Some (ok, st1, obj1)"
    and rest: "playS st1 obj1 ms = Some (st', obj')"
    by (auto split: option.splits)
  note f = makeMoveS_frame[OF mk Cons.prems(2)]
  from Cons.IH[OF rest] f Cons.prems(2) show ?case by simp
qed

lemma cloneS_fresh:
  assumes "view st src = Some g" "cloneS st src = Some (st1, c)"
  shows "view st1 c = Some (clone g)" and "view st1 src = Some g"
    and "set (rowRefs c) \<inter> set (rowRefs src) = {}"
proof -
  from assms(1) obtain b where b: "loadBoard st (rowRefs src) = Some b"
    and g: "g = (scalars src)\<lparr>board := b\<rparr>"
    by (auto simp: view_def)
  from b have valid: "list_all (\<lambda>a. a < length st) (rowRefs src)"
    by (simp add: loadBoard_Some)
  from assms have st1: "st1 = st @ board (clone g)"
    and c: "c = \<lparr>rowRefs = [length st ..< length st + length (board (clone g))],
                 scalars = (clone g)\<lparr>board := []\<rparr>\<rparr>"
    by (auto simp: cloneS_def Let_def)
  have "map (\<lambda>a. (st @ board (clone g)) ! a) [length st ..< length st + length (board (clone g))]
          = board (clone g)"
    by (rule nth_equalityI) (simp_all add: nth_append)
  then show "view st1 c = Some (clone g)"
    unfolding view_def loadBoard_def st1 c by (simp add: list_all_iff)
  from valid have "loadBoard st1 (rowRefs src) = loadBoard st (rowRefs src)"
    unfolding st1 loadBoard_def by (auto simp: list_all_iff nth_append)
  with assms(1) show "view st1 src = Some g" by (simp add: view_def)
  from valid show "set (rowRefs c) \<inter> set (rowRefs src) = {}"
    unfolding c by (auto simp: list_all_iff)
qed

text \<open>
  C9. \<open>clone\<close> returns an object that stands for a state with the board, \<open>currentPlayer\<close>,
  \<open>gameOver\<close>, \<open>winner\<close> and \<open>validMoves\<close> of the source, and whose row arrays are all
  different from those of the source. Whatever calls of \<open>makeMove\<close> follow on the copy, the
  source still stands for the same state, board and fields; and whatever calls follow on
  the source, the copy still stands for the state it stood for.
\<close>

theorem clone_independent:
  assumes "view st src = Some g" "cloneS st src = Some (st1, c)"
    "playS st1 c ms = Some (st2, c2)" "playS st1 src ms' = Some (st3, src3)"
  shows "(\<exists>gc. view st1 c = Some gc \<and> board gc = board g \<and>
             currentPlayer gc = currentPlayer g \<and> gameOver gc = gameOver g \<and>
             winner gc = winner g \<and> validMoves gc = validMoves g) \<and>
         set (rowRefs c) \<inter> set (rowRefs src) = {} \<and>
         view st2 src = Some g \<and>
         view st3 c = view st1 c"
proof -
  note cl = cloneS_fresh[OF assms(1,2)]
  from cl(3) have d2: "set (rowRefs src) \<inter> set (rowRefs c) = {}" by auto
  from playS_frame[OF assms(3) d2] cl(2) have "view st2 src = Some g" by simp
  moreover from playS_frame[OF assms(4) cl(3)] have "view st3 c = view st1 c" .
  ultimately show ?thesis using cl(1,3) by simp
qed


theorem clone_independent_witness:
  "view srcStore srcObj = Some startGame \<and>
   (\<exists>st1 c st2 c2 st3 src3.
      cloneS srcStore srcObj = Some (st1, c) \<and>
      playS st1 c [(2, 3)] = Some (st2, c2) \<and>
      playS st1 srcObj [(2, 3), (2, 2)] = Some (st3, src3) \<and>
      set (rowRefs c) \<inter> set (rowRefs srcObj) = {} \<and>
      view st2 srcObj = Some startGame \<and> view st3 c = view st1 c \<and>
      view st2 c2 = Some (whiteToMove) \<and>
      map_option board (view st3 src3) = Some (board blackToMove))"
proof -
  have v: "view srcStore srcObj = Some startGame" by code_simp
  have "cloneS srcStore srcObj \<noteq> None" by code_simp
  then obtain st1 c where cl: "cloneS srcStore srcObj = Some (st1, c)" by auto
  have "(cloneS srcStore srcObj \<bind> (\<lambda>(st1, c). playS st1 c [(2, 3)])) \<noteq> None" by code_simp
  with cl obtain st2 c2 where p1: "playS st1 c [(2, 3)] = Some (st2, c2)" by auto
  have "(cloneS srcStore srcObj \<bind> (\<lambda>(st1, c). playS st1 srcObj [(2, 3), (2, 2)])) \<noteq> None"
    by code_simp
  with cl obtain st3 src3 where p2: "playS st1 srcObj [(2, 3), (2, 2)] = Some (st3, src3)" by auto
  have "(cloneS srcStore srcObj \<bind> (\<lambda>(st1, c). playS st1 c [(2, 3)] \<bind>
           (\<lambda>(st2, c2). view st2 c2))) = Some (whiteToMove)" by code_simp
  with cl p1 have v2: "view st2 c2 = Some (whiteToMove)" by simp
  have "(cloneS srcStore srcObj \<bind> (\<lambda>(st1, c). playS st1 srcObj [(2, 3), (2, 2)] \<bind>
           (\<lambda>(st3, src3). map_option board (view st3 src3)))) = Some (board blackToMove)"
    by code_simp
  with cl p2 have v3: "map_option board (view st3 src3) = Some (board blackToMove)" by simp
  from clone_independent[OF v cl p1 p2] v cl p1 p2 v2 v3 show ?thesis by blast
qed

text \<open>Had the copy kept the row arrays of the source, a move on the copy would show in the
  source: the store tells the two apart.\<close>

lemma shared_rows_would_alias:
  "(case makeMoveS srcStore srcObj 2 3 of
      None \<Rightarrow> False
    | Some (ok, st', alias') \<Rightarrow> ok \<and> view st' srcObj \<noteq> view srcStore srcObj)"
  by code_simp

lemma setCell_length: "setCell b r c v = Some b' \<Longrightarrow> length b' = length b"
  by (auto simp: setCell_def split: if_splits)

lemma flipLoop_length: "flipLoop b p fl = Some b' \<Longrightarrow> length b' = length b"
proof (induction fl arbitrary: b)
  case Nil
  then show ?case by simp
next
  case (Cons m fl)
  obtain r c where "m = (r, c)" by (cases m)
  with Cons.prems obtain b1 where "setCell b r c (Disc p) = Some b1" "flipLoop b1 p fl = Some b'"
    by (auto split: option.splits)
  with Cons.IH[of b1] setCell_length[of b r c "Disc p" b1] show ?case by simp
qed

lemma makeMove_rows:
  assumes "makeMove g row col = Some (ok, g')"
  shows "length (board g') = length (board g)"
proof (cases ok)
  case False
  with assms makeMove_False(1)[of g row col g'] show ?thesis by simp
next
  case True
  with assms have "makeMove g row col = Some (True, g')" by simp
  from makeMove_True(3)[OF this] obtain fl b1 where
    "setCell (board g) row col (Disc (currentPlayer g)) = Some b1"
    "flipLoop b1 (currentPlayer g) fl = Some (board g')" by blast
  with setCell_length flipLoop_length show ?thesis by metis
qed

lemma storeRows_load:
  assumes "distinct refs" "list_all (\<lambda>a. a < length st) refs" "length rows = length refs"
  shows "\<exists>st'. storeRows st refs rows = Some st' \<and> map (\<lambda>a. st' ! a) refs = rows"
  using assms
proof (induction st refs rows rule: storeRows.induct)
  case (2 st a refs row rows)
  from "2.prems" have a: "a < length st" and d: "distinct refs" "a \<notin> set refs"
    and v: "list_all (\<lambda>x. x < length (st[a := row])) refs" and l: "length rows = length refs"
    by simp_all
  from "2.IH"[OF a d(1) v l] obtain st' where
    st': "storeRows (st[a := row]) refs rows = Some st'" "map (\<lambda>a. st' ! a) refs = rows" by blast
  from storeRows_frame[OF st'(1)] d(2) a have "st' ! a = row" by simp
  with st' a show ?case by simp
qed simp_all

text \<open>On an object whose row arrays are all different, the move in the store is the move
  of the engine on the state the object stands for.\<close>

lemma makeMoveS_view:
  assumes "view st obj = Some g" "distinct (rowRefs obj)" "makeMove g row col = Some (ok, g')"
  shows "\<exists>st' obj'. makeMoveS st obj row col = Some (ok, st', obj') \<and> view st' obj' = Some g'"
proof -
  from assms(1) have valid: "list_all (\<lambda>a. a < length st) (rowRefs obj)"
    and len: "length (board g) = length (rowRefs obj)"
    by (auto simp: view_def loadBoard_Some)
  from makeMove_rows[OF assms(3)] len have "length (board g') = length (rowRefs obj)" by simp
  from storeRows_load[OF assms(2) valid this] obtain st' where
    st': "storeRows st (rowRefs obj) (board g') = Some st'"
    "map (\<lambda>a. st' ! a) (rowRefs obj) = board g'" by blast
  from storeRows_frame[OF st'(1)] valid
  have "loadBoard st' (rowRefs obj) = Some (board g')"
    by (simp add: loadBoard_def st'(2))
  then have "view st' (obj\<lparr>scalars := g'\<lparr>board := []\<rparr>\<rparr>) = Some g'"
    by (simp add: view_def)
  with assms(1,3) st'(1) show ?thesis by (simp add: makeMoveS_def)
qed

end
